theory Spec2Isabelle
  imports Main "HOL-Library.Word" "HOL-Library.Sublist"
begin

section \<open>C strings and buffers\<close>

text \<open>
  A \<^verbatim>\<open>char\<close> buffer of the program is a list of bytes. A \<^verbatim>\<open>const char*\<close> that points
  into a buffer is read as a C string: the bytes from the pointer up to (not including) the
  first NUL. A pointer that may be \<^verbatim>\<open>nullptr\<close> is an \<open>option\<close>.
\<close>

definition NUL :: char where
  "NUL = CHR 0x00"

definition c_str :: "char list \<Rightarrow> string" where
  "c_str mem = takeWhile (\<lambda>c. c \<noteq> NUL) mem"

definition c_str_at :: "char list \<Rightarrow> nat \<Rightarrow> string" where
  "c_str_at buf i = c_str (drop i buf)"

text \<open>Reading \<^verbatim>\<open>*p\<close>. The buffers of the program end with a terminator, and no loop
  below moves past it; a read at the end of the modelled memory sees the terminator.\<close>

definition peek :: "char list \<Rightarrow> nat \<Rightarrow> char" where
  "peek buf p = (if p < length buf then buf ! p else NUL)"

section \<open>ShellSplit (command\_registry.hpp)\<close>

definition is_ws :: "char \<Rightarrow> bool" where
  "is_ws c \<longleftrightarrow> c = CHR '' '' \<or> c = CHR 0x09 \<or> c = CHR 0x0D \<or> c = CHR 0x0A"

definition SQUOTE :: char where
  "SQUOTE = CHR 0x27"

definition DQUOTE :: char where
  "DQUOTE = CHR 0x22"

text \<open>
  The quote removal of ShellSplit:
  \<^verbatim>\<open>char* dst = p; char* src = p + 1;
  while (*src != '\0') { *dst++ = *src++; }
  *dst = '\0';\<close>
  with \<open>src = dst + 1\<close> throughout.
\<close>

function shift_left :: "char list \<Rightarrow> nat \<Rightarrow> char list" where
  "shift_left buf dst =
     (if dst + 1 < length buf \<and> buf ! (dst + 1) \<noteq> NUL
      then shift_left (buf[dst := buf ! (dst + 1)]) (dst + 1)
      else buf[dst := NUL])"
  by pat_completeness auto
termination
  by (relation "measure (\<lambda>(buf, dst). length buf - dst)") auto

declare shift_left.simps [simp del]

lemma shift_left_append:
  "shift_left (pre @ c # rest) (length pre) =
     pre @ takeWhile (\<lambda>c. c \<noteq> NUL) rest @ NUL # dropWhile (\<lambda>c. c \<noteq> NUL) rest"
proof (induction rest arbitrary: pre c)
  case Nil
  show ?case by (subst shift_left.simps) simp
next
  case (Cons d rest)
  show ?case
  proof (cases "d = NUL")
    case True
    then show ?thesis by (subst shift_left.simps) (simp add: nth_append)
  next
    case False
    have "shift_left (pre @ c # d # rest) (length pre) =
          shift_left ((pre @ [d]) @ d # rest) (length (pre @ [d]))"
      using False by (subst shift_left.simps) (simp add: nth_append)
    also have "\<dots> = (pre @ [d]) @ takeWhile (\<lambda>c. c \<noteq> NUL) rest @
                 NUL # dropWhile (\<lambda>c. c \<noteq> NUL) rest"
      by (rule Cons.IH)
    finally show ?thesis using False by simp
  qed
qed

lemma c_str_at_step:
  assumes "p < length buf" and "buf ! p \<noteq> NUL"
  shows "c_str_at buf p = buf ! p # c_str_at buf (Suc p)"
proof -
  have "drop p buf = buf ! p # drop (Suc p) buf"
    using assms(1) by (simp add: Cons_nth_drop_Suc)
  then show ?thesis using assms(2) by (simp add: c_str_at_def c_str_def)
qed

lemma c_str_at_shift_left:
  assumes "p < length buf" and "buf ! p \<noteq> NUL"
  shows "c_str_at buf p = buf ! p # c_str_at (shift_left buf p) p"
proof -
  have split: "buf = take p buf @ buf ! p # drop (Suc p) buf"
    using assms(1) by (simp add: id_take_nth_drop)
  have len: "length (take p buf) = p"
    using assms(1) by simp
  have "shift_left buf p = shift_left (take p buf @ buf ! p # drop (Suc p) buf) (length (take p buf))"
    using split len by simp
  then have "shift_left buf p = take p buf @ takeWhile (\<lambda>c. c \<noteq> NUL) (drop (Suc p) buf) @
                 NUL # dropWhile (\<lambda>c. c \<noteq> NUL) (drop (Suc p) buf)"
    by (simp only: shift_left_append)
  then have "c_str_at (shift_left buf p) p = c_str_at buf (Suc p)"
    using len by (simp add: c_str_at_def c_str_def takeWhile_tail)
  then show ?thesis using c_str_at_step [OF assms] by simp
qed

lemma peek_nonNUL:
  "peek buf p \<noteq> NUL \<longleftrightarrow> p < length buf \<and> buf ! p \<noteq> NUL"
  by (simp add: peek_def)

lemma measure_advance:
  assumes "peek buf p \<noteq> NUL"
  shows "length (c_str_at buf (Suc p)) < length (c_str_at buf p)"
    and "length (c_str_at (buf[p := x]) (Suc p)) < length (c_str_at buf p)"
proof -
  from assms have p: "p < length buf" "buf ! p \<noteq> NUL"
    by (simp_all add: peek_nonNUL)
  show "length (c_str_at buf (Suc p)) < length (c_str_at buf p)"
    by (simp add: c_str_at_step [OF p])
  have "c_str_at (buf[p := x]) (Suc p) = c_str_at buf (Suc p)"
    by (simp add: c_str_at_def)
  then show "length (c_str_at (buf[p := x]) (Suc p)) < length (c_str_at buf p)"
    by (simp add: c_str_at_step [OF p])
qed

lemma measure_shift_left:
  assumes "peek buf p \<noteq> NUL"
  shows "length (c_str_at (shift_left buf p) p) < length (c_str_at buf p)"
proof -
  from assms have p: "p < length buf" "buf ! p \<noteq> NUL"
    by (simp_all add: peek_nonNUL)
  show ?thesis
    by (simp add: c_str_at_shift_left [OF p])
qed

text \<open>
  The main loop of ShellSplit. The state is the buffer, the cursor \<open>p\<close> (an offset into the
  buffer), the entries \<open>argv[0..argc-1]\<close> written so far (offsets into the buffer; \<open>argc\<close> is
  their number) and the three flags. The result is the returned \<^verbatim>\<open>int\<close>, the buffer as
  the call leaves it, and the entries of \<open>argv\<close> written.
\<close>

function split_loop ::
  "char list \<Rightarrow> nat \<Rightarrow> nat list \<Rightarrow> bool \<Rightarrow> bool \<Rightarrow> bool \<Rightarrow> int \<Rightarrow> int \<times> char list \<times> nat list" where
  "split_loop buf p argv in_sq in_dq in_arg max_args =
     (if peek buf p = NUL then (int (length argv), buf, argv)
      else if is_ws (buf ! p) \<and> \<not> in_sq \<and> \<not> in_dq then
        split_loop (if in_arg then buf[p := NUL] else buf) (p + 1) argv in_sq in_dq False max_args
      else if buf ! p = SQUOTE \<and> \<not> in_dq then
        (if \<not> in_arg then
           (if int (length argv) \<ge> max_args then (- 1, shift_left buf p, argv)
            else split_loop (shift_left buf p) p (argv @ [p]) (\<not> in_sq) in_dq True max_args)
         else split_loop (shift_left buf p) p argv (\<not> in_sq) in_dq in_arg max_args)
      else if buf ! p = DQUOTE \<and> \<not> in_sq then
        (if \<not> in_arg then
           (if int (length argv) \<ge> max_args then (- 1, shift_left buf p, argv)
            else split_loop (shift_left buf p) p (argv @ [p]) in_sq (\<not> in_dq) True max_args)
         else split_loop (shift_left buf p) p argv in_sq (\<not> in_dq) in_arg max_args)
      else
        (if \<not> in_arg then
           (if int (length argv) \<ge> max_args then (- 1, buf, argv)
            else split_loop buf (p + 1) (argv @ [p]) in_sq in_dq True max_args)
         else split_loop buf (p + 1) argv in_sq in_dq in_arg max_args))"
  by pat_completeness auto
termination
proof (relation "measure (\<lambda>(buf, p, argv, in_sq, in_dq, in_arg, max_args). length (c_str_at buf p))")
  show "wf (measure (\<lambda>(buf, p, argv, in_sq, in_dq, in_arg, max_args). length (c_str_at buf p)))"
    by simp
qed (simp_all add: measure_advance measure_shift_left)

declare split_loop.simps [simp del]

text \<open>
  \<^verbatim>\<open>int ShellSplit(char* cmdline, char* argv[], int max_args)\<close>. \<open>cmdline\<close> is \<open>None\<close> for
  \<^verbatim>\<open>nullptr\<close> and otherwise the buffer it points to; \<open>argv\<close> is represented by whether the
  pointer is non-null, since the entries written are part of the result.
\<close>

definition ShellSplit :: "char list option \<Rightarrow> bool \<Rightarrow> int \<Rightarrow> int \<times> char list \<times> nat list" where
  "ShellSplit cmdline argv_given max_args =
     (case cmdline of
        None \<Rightarrow> (- 1, [], [])
      | Some buf \<Rightarrow>
          if \<not> argv_given then (- 1, buf, [])
          else split_loop buf 0 [] False False False max_args)"

text \<open>The strings \<open>argv[0]\<close>, \<open>argv[1]\<close>, ... a caller reads after the call.\<close>

definition argv_strings :: "int \<times> char list \<times> nat list \<Rightarrow> string list" where
  "argv_strings r = (case r of (argc, buf, argv) \<Rightarrow> map (c_str_at buf) argv)"

definition split_ret :: "int \<times> char list \<times> nat list \<Rightarrow> int" where
  "split_ret r = fst r"

subsection \<open>A reference tokenizer\<close>

text \<open>
  The tokenizer as the specification words it, on the text of the line: white space outside
  quotes separates tokens, a quote character toggles its quoting state unless the other
  quote is open and is dropped from the text, and a token starts at the first character or
  quote met outside a token. \<open>cur\<close> is the text of the token being read, if any.
\<close>

fun tok :: "bool \<Rightarrow> bool \<Rightarrow> string option \<Rightarrow> string \<Rightarrow> string list" where
  "tok sq dq cur [] = (case cur of None \<Rightarrow> [] | Some w \<Rightarrow> [w])"
| "tok sq dq cur (c # cs) =
     (if is_ws c \<and> \<not> sq \<and> \<not> dq then
        (case cur of None \<Rightarrow> tok sq dq None cs | Some w \<Rightarrow> w # tok sq dq None cs)
      else if c = SQUOTE \<and> \<not> dq then
        tok (\<not> sq) dq (Some (case cur of None \<Rightarrow> [] | Some w \<Rightarrow> w)) cs
      else if c = DQUOTE \<and> \<not> sq then
        tok sq (\<not> dq) (Some (case cur of None \<Rightarrow> [] | Some w \<Rightarrow> w)) cs
      else tok sq dq (Some ((case cur of None \<Rightarrow> [] | Some w \<Rightarrow> w) @ [c])) cs)"

text \<open>The loop of ShellSplit, one iteration at a time, on a buffer split at the cursor.\<close>

lemma tok_Some_nonempty: "tok sq dq (Some w) s \<noteq> []"
  by (induction s arbitrary: sq dq w) auto

lemma takeWhile_to_NUL:
  "NUL \<notin> set cs \<Longrightarrow> takeWhile (\<lambda>c. c \<noteq> NUL) (cs @ NUL # rest) = cs"
  by (induction cs) auto

lemma dropWhile_to_NUL:
  "NUL \<notin> set cs \<Longrightarrow> dropWhile (\<lambda>c. c \<noteq> NUL) (cs @ NUL # rest) = NUL # rest"
  by (induction cs) auto

lemma step_end:
  "split_loop (pre @ NUL # rest) (length pre) argv sq dq ia m =
     (int (length argv), pre @ NUL # rest, argv)"
  by (subst split_loop.simps) (simp add: peek_def)

lemma step_ws:
  assumes "is_ws c" "\<not> sq" "\<not> dq" "c \<noteq> NUL"
  shows "split_loop (pre @ c # t) (length pre) argv sq dq ia m =
         split_loop ((pre @ [if ia then NUL else c]) @ t)
           (length (pre @ [if ia then NUL else c])) argv sq dq False m"
  using assms by (subst split_loop.simps) (simp add: peek_def)

lemma step_sq:
  assumes "\<not> dq" "NUL \<notin> set cs"
  shows "split_loop (pre @ SQUOTE # cs @ NUL # rest) (length pre) argv sq dq ia m =
         (if \<not> ia then
            (if m \<le> int (length argv) then (- 1, pre @ cs @ NUL # NUL # rest, argv)
             else split_loop (pre @ cs @ NUL # NUL # rest) (length pre) (argv @ [length pre])
                    (\<not> sq) dq True m)
          else split_loop (pre @ cs @ NUL # NUL # rest) (length pre) argv (\<not> sq) dq True m)"
proof -
  have sl: "shift_left (pre @ SQUOTE # cs @ NUL # rest) (length pre) = pre @ cs @ NUL # NUL # rest"
    using assms(2) by (simp add: shift_left_append takeWhile_to_NUL dropWhile_to_NUL)
  have ws: "\<not> is_ws SQUOTE" "SQUOTE \<noteq> NUL"
    by (simp_all add: is_ws_def SQUOTE_def NUL_def)
  show ?thesis
    using assms(1) ws by (subst split_loop.simps) (simp add: peek_def sl del: append_assoc)
qed


lemma step_dq:
  assumes "\<not> sq" "NUL \<notin> set cs"
  shows "split_loop (pre @ DQUOTE # cs @ NUL # rest) (length pre) argv sq dq ia m =
         (if \<not> ia then
            (if m \<le> int (length argv) then (- 1, pre @ cs @ NUL # NUL # rest, argv)
             else split_loop (pre @ cs @ NUL # NUL # rest) (length pre) (argv @ [length pre])
                    sq (\<not> dq) True m)
          else split_loop (pre @ cs @ NUL # NUL # rest) (length pre) argv sq (\<not> dq) True m)"
proof -
  have sl: "shift_left (pre @ DQUOTE # cs @ NUL # rest) (length pre) = pre @ cs @ NUL # NUL # rest"
    using assms(2) by (simp add: shift_left_append takeWhile_to_NUL dropWhile_to_NUL)
  have ws: "\<not> is_ws DQUOTE" "DQUOTE \<noteq> NUL" "DQUOTE \<noteq> SQUOTE"
    by (simp_all add: is_ws_def SQUOTE_def DQUOTE_def NUL_def)
  show ?thesis
    using assms(1) ws by (subst split_loop.simps) (simp add: peek_def sl del: append_assoc)
qed

lemma step_char:
  assumes "c \<noteq> NUL" "\<not> (is_ws c \<and> \<not> sq \<and> \<not> dq)" "\<not> (c = SQUOTE \<and> \<not> dq)"
    "\<not> (c = DQUOTE \<and> \<not> sq)"
  shows "split_loop (pre @ c # t) (length pre) argv sq dq ia m =
         (if \<not> ia then
            (if m \<le> int (length argv) then (- 1, pre @ c # t, argv)
             else split_loop ((pre @ [c]) @ t) (length (pre @ [c])) (argv @ [length pre])
                    sq dq True m)
          else split_loop ((pre @ [c]) @ t) (length (pre @ [c])) argv sq dq True m)"
  using assms by (subst split_loop.simps) (auto simp add: peek_def)


definition view :: "char list \<Rightarrow> nat list \<Rightarrow> string list" where
  "view pre argv = map (\<lambda>a. c_str (drop a pre)) argv"

definition closed_args :: "char list \<Rightarrow> nat list \<Rightarrow> bool" where
  "closed_args pre dn \<longleftrightarrow> list_all (\<lambda>a. a \<le> length pre \<and> NUL \<in> set (drop a pre)) dn"

definition open_arg :: "char list \<Rightarrow> nat option \<Rightarrow> bool" where
  "open_arg pre cur \<longleftrightarrow>
     (case cur of None \<Rightarrow> True | Some a \<Rightarrow> a \<le> length pre \<and> NUL \<notin> set (drop a pre))"

lemma c_str_NUL_free: "NUL \<notin> set x \<Longrightarrow> c_str x = x"
  by (induction x) (auto simp: c_str_def)

lemma c_str_append_NUL: "NUL \<notin> set x \<Longrightarrow> c_str (x @ NUL # y) = x"
  by (simp add: c_str_def takeWhile_to_NUL)

lemma c_str_closed: "NUL \<in> set x \<Longrightarrow> c_str (x @ y) = c_str x"
  by (induction x) (auto simp: c_str_def)

lemma length_view [simp]: "length (view pre dn) = length dn"
  by (simp add: view_def)

lemma view_append [simp]: "view pre (xs @ ys) = view pre xs @ view pre ys"
  by (simp add: view_def)

lemma view_closed:
  "closed_args pre dn \<Longrightarrow> view (pre @ x) dn = view pre dn"
  by (induction dn) (auto simp: closed_args_def view_def c_str_closed)

lemma closed_args_append:
  "closed_args pre dn \<Longrightarrow> closed_args (pre @ x) dn"
  by (induction dn) (auto simp: closed_args_def)

lemma view_at_end:
  "closed_args pre dn \<Longrightarrow> map (c_str_at (pre @ NUL # rest)) dn = view pre dn"
  by (induction dn) (auto simp: closed_args_def view_def c_str_at_def c_str_closed)

definition cur_args :: "nat option \<Rightarrow> nat list" where
  "cur_args cur = (case cur of None \<Rightarrow> [] | Some a \<Rightarrow> [a])"

definition cur_text :: "char list \<Rightarrow> nat option \<Rightarrow> string option" where
  "cur_text pre cur = map_option (\<lambda>a. drop a pre) cur"

definition split_post ::
  "int \<times> char list \<times> nat list \<Rightarrow> nat \<Rightarrow> int \<Rightarrow> string list \<Rightarrow> bool" where
  "split_post r n m all \<longleftrightarrow>
     (if length all = n \<or> int (length all) \<le> m
      then fst r = int (length all) \<and> argv_strings r = all
      else fst r = - 1)"

lemma split_loop_tok:
  assumes "NUL \<notin> set s" "closed_args pre dn" "open_arg pre cur"
  shows "split_post
           (split_loop (pre @ s @ NUL # rest) (length pre) (dn @ cur_args cur) sq dq (cur \<noteq> None) m)
           (length (dn @ cur_args cur)) m
           (view pre dn @ tok sq dq (cur_text pre cur) s)"
  using assms
proof (induction s arbitrary: pre rest dn cur sq dq)
  case Nil
  show ?case
  proof (cases cur)
    case None
    then show ?thesis
      using Nil by (simp add: step_end split_post_def argv_strings_def cur_args_def cur_text_def
          view_at_end)
  next
    case (Some a)
    then show ?thesis
      using Nil by (simp add: step_end split_post_def argv_strings_def cur_args_def cur_text_def
          view_at_end open_arg_def c_str_at_def c_str_append_NUL)
  qed
next
  case (Cons c cs)
  then have c: "c \<noteq> NUL" and cs: "NUL \<notin> set cs" by auto
  note cl = Cons.prems(2) and op = Cons.prems(3)
  have cl': "closed_args (pre @ x) dn" for x
    using cl by (rule closed_args_append)
  have vw: "view (pre @ x) dn = view pre dn" for x
    using cl by (rule view_closed)
  consider
      (ws) "is_ws c" "\<not> sq" "\<not> dq"
    | (sq) "c = SQUOTE" "\<not> dq"
    | (dq) "c = DQUOTE" "\<not> sq" "\<not> (c = SQUOTE \<and> \<not> dq)"
    | (ch) "\<not> (is_ws c \<and> \<not> sq \<and> \<not> dq)" "\<not> (c = SQUOTE \<and> \<not> dq)" "\<not> (c = DQUOTE \<and> \<not> sq)"
    by blast
  then show ?case
  proof cases
    case ws
    show ?thesis
    proof (cases cur)
      case None
      have "split_post
              (split_loop ((pre @ [c]) @ cs @ NUL # rest) (length (pre @ [c])) (dn @ cur_args None)
                 sq dq (None \<noteq> (None :: nat option)) m)
              (length (dn @ cur_args None)) m
              (view (pre @ [c]) dn @ tok sq dq (cur_text (pre @ [c]) None) cs)"
        by (rule Cons.IH [OF cs cl']) (simp add: open_arg_def)
      then show ?thesis
        using None ws c by (simp add: step_ws [where ia = False, simplified] vw cur_args_def
            cur_text_def)
    next
      case (Some a)
      with op have a: "a \<le> length pre" "NUL \<notin> set (drop a pre)"
        by (simp_all add: open_arg_def)
      have cl2: "closed_args (pre @ [NUL]) (dn @ [a])"
        using cl' [of "[NUL]"] a by (simp add: closed_args_def)
      have "split_post
              (split_loop ((pre @ [NUL]) @ cs @ NUL # rest) (length (pre @ [NUL]))
                 ((dn @ [a]) @ cur_args None) sq dq (None \<noteq> (None :: nat option)) m)
              (length ((dn @ [a]) @ cur_args None)) m
              (view (pre @ [NUL]) (dn @ [a]) @ tok sq dq (cur_text (pre @ [NUL]) None) cs)"
        by (rule Cons.IH [OF cs cl2]) (simp add: open_arg_def)
      moreover have "view (pre @ [NUL]) [a] = [drop a pre]"
        using a by (simp add: view_def c_str_append_NUL)
      ultimately show ?thesis
        using Some ws c by (simp add: step_ws [where ia = True, simplified] vw cur_args_def
            cur_text_def)
    qed
  next
    case sq
    have ws: "\<not> is_ws c" using sq by (simp add: is_ws_def SQUOTE_def)
    show ?thesis
    proof (cases cur)
      case None
      have op2: "open_arg pre (Some (length pre))"
        by (simp add: open_arg_def)
      have ih: "split_post
              (split_loop (pre @ cs @ NUL # NUL # rest) (length pre) (dn @ cur_args (Some (length pre)))
                 (\<not> sq) dq (Some (length pre) \<noteq> None) m)
              (length (dn @ cur_args (Some (length pre)))) m
              (view pre dn @ tok (\<not> sq) dq (cur_text pre (Some (length pre))) cs)"
        by (rule Cons.IH [OF cs cl op2])
      have ne: "tok (\<not> sq) dq (Some []) cs \<noteq> []"
        by (rule tok_Some_nonempty)
      then obtain n where n: "length (tok (\<not> sq) dq (Some []) cs) = Suc n"
        by (cases "tok (\<not> sq) dq (Some []) cs") auto
      show ?thesis
        using n None sq ws ih cs
        by (auto simp add: step_sq cur_args_def cur_text_def split_post_def)
    next
      case (Some a)
      have "split_post
              (split_loop (pre @ cs @ NUL # NUL # rest) (length pre) (dn @ cur_args (Some a))
                 (\<not> sq) dq (Some a \<noteq> None) m)
              (length (dn @ cur_args (Some a))) m
              (view pre dn @ tok (\<not> sq) dq (cur_text pre (Some a)) cs)"
        using op Some by (intro Cons.IH [OF cs cl]) simp
      then show ?thesis
        using Some sq ws cs by (simp add: step_sq cur_args_def cur_text_def)
    qed
  next
    case dq
    have ws: "\<not> is_ws c" "DQUOTE \<noteq> SQUOTE"
      using dq by (simp_all add: is_ws_def DQUOTE_def SQUOTE_def)
    show ?thesis
    proof (cases cur)
      case None
      have op2: "open_arg pre (Some (length pre))"
        by (simp add: open_arg_def)
      have ih: "split_post
              (split_loop (pre @ cs @ NUL # NUL # rest) (length pre) (dn @ cur_args (Some (length pre)))
                 sq (\<not> dq) (Some (length pre) \<noteq> None) m)
              (length (dn @ cur_args (Some (length pre)))) m
              (view pre dn @ tok sq (\<not> dq) (cur_text pre (Some (length pre))) cs)"
        by (rule Cons.IH [OF cs cl op2])
      have ne: "tok sq (\<not> dq) (Some []) cs \<noteq> []"
        by (rule tok_Some_nonempty)
      then obtain n where n: "length (tok sq (\<not> dq) (Some []) cs) = Suc n"
        by (cases "tok sq (\<not> dq) (Some []) cs") auto
      show ?thesis
        using n None dq ws ih cs
        by (auto simp add: step_dq cur_args_def cur_text_def split_post_def)
    next
      case (Some a)
      have "split_post
              (split_loop (pre @ cs @ NUL # NUL # rest) (length pre) (dn @ cur_args (Some a))
                 sq (\<not> dq) (Some a \<noteq> None) m)
              (length (dn @ cur_args (Some a))) m
              (view pre dn @ tok sq (\<not> dq) (cur_text pre (Some a)) cs)"
        using op Some by (intro Cons.IH [OF cs cl]) simp
      then show ?thesis
        using Some dq ws cs by (simp add: step_dq cur_args_def cur_text_def)
    qed
  next
    case ch
    show ?thesis
    proof (cases cur)
      case None
      have op2: "open_arg (pre @ [c]) (Some (length pre))"
        using c by (simp add: open_arg_def)
      have ih: "split_post
              (split_loop ((pre @ [c]) @ cs @ NUL # rest) (length (pre @ [c]))
                 (dn @ cur_args (Some (length pre))) sq dq (Some (length pre) \<noteq> None) m)
              (length (dn @ cur_args (Some (length pre)))) m
              (view (pre @ [c]) dn @ tok sq dq (cur_text (pre @ [c]) (Some (length pre))) cs)"
        by (rule Cons.IH [OF cs cl' op2])
      have ne: "tok sq dq (Some [c]) cs \<noteq> []"
        by (rule tok_Some_nonempty)
      then obtain n where n: "length (tok sq dq (Some [c]) cs) = Suc n"
        by (cases "tok sq dq (Some [c]) cs") auto
      show ?thesis
        using n None ch ih c
        by (auto simp add: step_char [where ia = False, simplified] vw cur_args_def cur_text_def
            split_post_def)
    next
      case (Some a)
      with op have a: "a \<le> length pre" "NUL \<notin> set (drop a pre)"
        by (simp_all add: open_arg_def)
      have op2: "open_arg (pre @ [c]) (Some a)"
        using a c by (simp add: open_arg_def)
      have "split_post
              (split_loop ((pre @ [c]) @ cs @ NUL # rest) (length (pre @ [c]))
                 (dn @ cur_args (Some a)) sq dq (Some a \<noteq> None) m)
              (length (dn @ cur_args (Some a))) m
              (view (pre @ [c]) dn @ tok sq dq (cur_text (pre @ [c]) (Some a)) cs)"
        by (rule Cons.IH [OF cs cl' op2])
      then show ?thesis
        using Some ch c a
        by (auto simp add: step_char [where ia = True, simplified] vw cur_args_def cur_text_def)
    qed
  qed
qed

subsection \<open>Lines written as tokens\<close>

text \<open>
  A line as the specification describes it: tokens separated by white space, each token a
  sequence of pieces that are bare text, text in single quotes or text in double quotes.
  Bare text holds no white space and no quote character; text in single quotes holds anything
  but a single quote (white space and double quotes included), and likewise for double
  quotes. \<open>items\<close> pairs each token with the white space written before it (possibly none
  before the first); \<open>trail\<close> is the white space after the last token.
\<close>

datatype seg = Bare string | SQ string | DQ string

fun seg_text :: "seg \<Rightarrow> string" where
  "seg_text (Bare s) = s"
| "seg_text (SQ s) = s"
| "seg_text (DQ s) = s"

fun seg_src :: "seg \<Rightarrow> string" where
  "seg_src (Bare s) = s"
| "seg_src (SQ s) = SQUOTE # s @ [SQUOTE]"
| "seg_src (DQ s) = DQUOTE # s @ [DQUOTE]"

fun seg_ok :: "seg \<Rightarrow> bool" where
  "seg_ok (Bare s) \<longleftrightarrow>
     s \<noteq> [] \<and> list_all (\<lambda>c. c \<noteq> NUL \<and> \<not> is_ws c \<and> c \<noteq> SQUOTE \<and> c \<noteq> DQUOTE) s"
| "seg_ok (SQ s) \<longleftrightarrow> list_all (\<lambda>c. c \<noteq> NUL \<and> c \<noteq> SQUOTE) s"
| "seg_ok (DQ s) \<longleftrightarrow> list_all (\<lambda>c. c \<noteq> NUL \<and> c \<noteq> DQUOTE) s"

definition token_text :: "seg list \<Rightarrow> string" where
  "token_text tk = concat (map seg_text tk)"

definition token_src :: "seg list \<Rightarrow> string" where
  "token_src tk = concat (map seg_src tk)"

definition token_ok :: "seg list \<Rightarrow> bool" where
  "token_ok tk \<longleftrightarrow> tk \<noteq> [] \<and> list_all seg_ok tk"

definition blank :: "string \<Rightarrow> bool" where
  "blank s \<longleftrightarrow> list_all is_ws s"

fun tokens_src :: "(string \<times> seg list) list \<Rightarrow> string" where
  "tokens_src [] = []"
| "tokens_src ((sep, tk) # xs) = sep @ token_src tk @ tokens_src xs"

definition line_src :: "(string \<times> seg list) list \<Rightarrow> string \<Rightarrow> string" where
  "line_src items trail = tokens_src items @ trail"

definition line_ok :: "(string \<times> seg list) list \<Rightarrow> string \<Rightarrow> bool" where
  "line_ok items trail \<longleftrightarrow>
     list_all (\<lambda>(sep, tk). blank sep \<and> token_ok tk) items \<and>
     list_all (\<lambda>(sep, tk). sep \<noteq> []) (tl items) \<and> blank trail"

definition line_tokens :: "(string \<times> seg list) list \<Rightarrow> string list" where
  "line_tokens items = map (\<lambda>(sep, tk). token_text tk) items"

lemma tok_plain:
  "list_all (\<lambda>c. \<not> is_ws c \<and> c \<noteq> SQUOTE \<and> c \<noteq> DQUOTE) s \<Longrightarrow>
   tok False False (Some w) (s @ t) = tok False False (Some (w @ s)) t"
  by (induction s arbitrary: w) auto

lemma tok_in_sq:
  "list_all (\<lambda>c. c \<noteq> SQUOTE) s \<Longrightarrow>
   tok True False (Some w) (s @ SQUOTE # t) = tok False False (Some (w @ s)) t"
  by (induction s arbitrary: w) auto

lemma tok_in_dq:
  "list_all (\<lambda>c. c \<noteq> DQUOTE) s \<Longrightarrow>
   tok False True (Some w) (s @ DQUOTE # t) = tok False False (Some (w @ s)) t"
  by (induction s arbitrary: w) (auto simp: DQUOTE_def SQUOTE_def)

lemma quotes_not_ws: "\<not> is_ws SQUOTE" "\<not> is_ws DQUOTE" "DQUOTE \<noteq> SQUOTE"
  "SQUOTE \<noteq> NUL" "DQUOTE \<noteq> NUL"
  by (simp_all add: is_ws_def SQUOTE_def DQUOTE_def NUL_def)

lemma list_all_weaken: "list_all P s \<Longrightarrow> (\<And>x. P x \<Longrightarrow> Q x) \<Longrightarrow> list_all Q s"
  by (induction s) auto

lemma tok_seg_Some:
  assumes "seg_ok sg"
  shows "tok False False (Some w) (seg_src sg @ t) = tok False False (Some (w @ seg_text sg)) t"
proof (cases sg)
  case (Bare s)
  with assms have "list_all (\<lambda>c. \<not> is_ws c \<and> c \<noteq> SQUOTE \<and> c \<noteq> DQUOTE) s"
    by (auto elim: list_all_weaken)
  then show ?thesis using Bare by (simp add: tok_plain)
next
  case (SQ s)
  with assms have "list_all (\<lambda>c. c \<noteq> SQUOTE) s"
    by (auto elim: list_all_weaken)
  then show ?thesis using SQ by (simp add: tok_in_sq quotes_not_ws)
next
  case (DQ s)
  with assms have "list_all (\<lambda>c. c \<noteq> DQUOTE) s"
    by (auto elim: list_all_weaken)
  then show ?thesis using DQ by (simp add: tok_in_dq quotes_not_ws)
qed

lemma tok_seg_None:
  assumes "seg_ok sg"
  shows "tok False False None (seg_src sg @ t) = tok False False (Some (seg_text sg)) t"
proof (cases sg)
  case (Bare s)
  with assms obtain c cs where s: "s = c # cs" and c: "\<not> is_ws c" "c \<noteq> SQUOTE" "c \<noteq> DQUOTE"
    and cs0: "list_all (\<lambda>c. c \<noteq> NUL \<and> \<not> is_ws c \<and> c \<noteq> SQUOTE \<and> c \<noteq> DQUOTE) cs"
    by (cases s) auto
  from cs0 have cs: "list_all (\<lambda>c. \<not> is_ws c \<and> c \<noteq> SQUOTE \<and> c \<noteq> DQUOTE) cs"
    by (auto elim: list_all_weaken)
  show ?thesis using Bare s c cs by (simp add: tok_plain)
next
  case (SQ s)
  with assms have "list_all (\<lambda>c. c \<noteq> SQUOTE) s"
    by (auto elim: list_all_weaken)
  then show ?thesis using SQ tok_in_sq [of s "[]" t] by (simp add: quotes_not_ws)
next
  case (DQ s)
  with assms have "list_all (\<lambda>c. c \<noteq> DQUOTE) s"
    by (auto elim: list_all_weaken)
  then show ?thesis using DQ tok_in_dq [of s "[]" t] by (simp add: quotes_not_ws)
qed

lemma tok_token_Some:
  "list_all seg_ok tk \<Longrightarrow>
   tok False False (Some w) (token_src tk @ t) = tok False False (Some (w @ token_text tk)) t"
  by (induction tk arbitrary: w) (simp_all add: token_src_def token_text_def tok_seg_Some)

lemma tok_token_None:
  assumes "token_ok tk"
  shows "tok False False None (token_src tk @ t) = tok False False (Some (token_text tk)) t"
proof -
  from assms obtain sg sgs where tk: "tk = sg # sgs" and sg: "seg_ok sg" and sgs: "list_all seg_ok sgs"
    by (cases tk) (auto simp: token_ok_def)
  have "tok False False None (token_src tk @ t) = tok False False None (seg_src sg @ token_src sgs @ t)"
    by (simp add: tk token_src_def)
  also have "\<dots> = tok False False (Some (seg_text sg)) (token_src sgs @ t)"
    by (rule tok_seg_None [OF sg])
  also have "\<dots> = tok False False (Some (seg_text sg @ token_text sgs)) t"
    by (rule tok_token_Some [OF sgs])
  finally show ?thesis by (simp add: tk token_text_def)
qed

lemma tok_blank_None:
  "blank sep \<Longrightarrow> tok False False None (sep @ t) = tok False False None t"
  by (induction sep) (auto simp: blank_def)

lemma tok_blank_Some:
  "blank sep \<Longrightarrow> sep \<noteq> [] \<Longrightarrow> tok False False (Some w) (sep @ t) = w # tok False False None t"
  by (cases sep) (auto simp: blank_def tok_blank_None [unfolded blank_def])

lemma tok_blank_end:
  "blank trail \<Longrightarrow> tok False False None trail = []"
  using tok_blank_None [of trail "[]"] by simp

lemma tok_blank_end_Some:
  "blank trail \<Longrightarrow> tok False False (Some w) trail = [w]"
  using tok_blank_Some [of trail w "[]"] by (cases trail) simp_all

lemma tok_items_Some:
  assumes "list_all (\<lambda>(sep, tk). blank sep \<and> token_ok tk) xs"
    and "list_all (\<lambda>(sep, tk). sep \<noteq> []) xs" and "blank trail"
  shows "tok False False (Some w) (tokens_src xs @ trail) = w # line_tokens xs"
  using assms
proof (induction xs arbitrary: w)
  case Nil
  then show ?case by (simp add: tok_blank_end_Some line_tokens_def)
next
  case (Cons x xs)
  obtain sep tk where x: "x = (sep, tk)" by (cases x)
  with Cons.prems have sep: "blank sep" "sep \<noteq> []" and tk: "token_ok tk" by simp_all
  have "tok False False (Some w) (tokens_src (x # xs) @ trail) =
        w # tok False False None (token_src tk @ tokens_src xs @ trail)"
    using sep by (simp add: x tok_blank_Some)
  also have "\<dots> = w # tok False False (Some (token_text tk)) (tokens_src xs @ trail)"
    by (simp add: tok_token_None [OF tk])
  also have "\<dots> = w # token_text tk # line_tokens xs"
    using Cons.prems by (simp add: Cons.IH)
  finally show ?case by (simp add: x line_tokens_def)
qed

lemma tok_line:
  assumes "line_ok items trail"
  shows "tok False False None (line_src items trail) = line_tokens items"
proof (cases items)
  case Nil
  then show ?thesis using assms by (simp add: line_ok_def line_src_def line_tokens_def tok_blank_end)
next
  case (Cons x xs)
  obtain sep tk where x: "x = (sep, tk)" by (cases x)
  from assms Cons x have sep: "blank sep" and tk: "token_ok tk"
    and xs: "list_all (\<lambda>(sep, tk). blank sep \<and> token_ok tk) xs"
      "list_all (\<lambda>(sep, tk). sep \<noteq> []) xs" and tr: "blank trail"
    by (simp_all add: line_ok_def)
  have "tok False False None (line_src items trail) =
        tok False False None (token_src tk @ tokens_src xs @ trail)"
    using sep by (simp add: Cons x line_src_def tok_blank_None)
  also have "\<dots> = tok False False (Some (token_text tk)) (tokens_src xs @ trail)"
    by (rule tok_token_None [OF tk])
  also have "\<dots> = token_text tk # line_tokens xs"
    by (rule tok_items_Some [OF xs tr])
  finally show ?thesis by (simp add: Cons x line_tokens_def)
qed

lemma blank_no_NUL: "blank s \<Longrightarrow> NUL \<notin> set s"
  by (induction s) (auto simp: blank_def is_ws_def NUL_def)

lemma seg_no_NUL: "seg_ok sg \<Longrightarrow> NUL \<notin> set (seg_src sg)"
  using quotes_not_ws(4,5) by (cases sg) (auto simp: list_all_iff)

lemma token_no_NUL: "list_all seg_ok tk \<Longrightarrow> NUL \<notin> set (token_src tk)"
  by (induction tk) (auto simp: token_src_def seg_no_NUL)

lemma line_no_NUL:
  assumes "line_ok items trail"
  shows "NUL \<notin> set (line_src items trail)"
proof -
  have "list_all (\<lambda>(sep, tk). blank sep \<and> token_ok tk) xs \<Longrightarrow> NUL \<notin> set (tokens_src xs)" for xs
    by (induction xs) (auto simp: blank_no_NUL token_no_NUL token_ok_def)
  then show ?thesis
    using assms by (simp add: line_ok_def line_src_def blank_no_NUL)
qed

lemma ShellSplit_tok:
  assumes "NUL \<notin> set s"
  shows "split_post (ShellSplit (Some (s @ NUL # rest)) True m) 0 m (tok False False None s)"
proof -
  have "split_post
          (split_loop ([] @ s @ NUL # rest) (length ([] :: char list)) ([] @ cur_args None)
             False False (None \<noteq> (None :: nat option)) m)
          (length ([] @ cur_args None)) m
          (view [] [] @ tok False False (cur_text [] None) s)"
    by (rule split_loop_tok [OF assms]) (simp_all add: closed_args_def open_arg_def)
  then show ?thesis
    by (simp add: ShellSplit_def cur_args_def cur_text_def view_def)
qed

text \<open>
  Claim C3. For a line of \<open>N\<close> white-space-separated tokens, each bare or (in part or in
  whole) in single or double quotes, with \<open>N \<le> max_args\<close>, ShellSplit returns \<open>N\<close> and
  \<open>argv\<close> holds the tokens with the quote characters removed. Only space, tab, CR and LF
  outside quotes separate tokens (bare text may hold any other byte); white space inside
  quotes stays in the token; a single quote does not close a double quote, nor a double
  quote a single quote (quoted text may hold the other quote character); a token may begin
  with a quote or with bare text.
\<close>

theorem ShellSplit_tokens:
  assumes "line_ok items trail" and "int (length items) \<le> max_args"
  shows "split_ret (ShellSplit (Some (line_src items trail @ NUL # rest)) True max_args) =
           int (length items) \<and>
         argv_strings (ShellSplit (Some (line_src items trail @ NUL # rest)) True max_args) =
           line_tokens items"
proof -
  have "split_post (ShellSplit (Some (line_src items trail @ NUL # rest)) True max_args) 0 max_args
          (line_tokens items)"
    using ShellSplit_tok [OF line_no_NUL [OF assms(1)]] by (simp add: tok_line [OF assms(1)])
  moreover have "length (line_tokens items) = length items"
    by (simp add: line_tokens_def)
  ultimately show ?thesis
    using assms(2) by (simp add: split_post_def split_ret_def)
qed

theorem ShellSplit_tokens_witness:
  "line_ok [([], [Bare ''echo'']), ('' '', [SQ ''hello world''])] [] \<and>
   line_src [([], [Bare ''echo'']), ('' '', [SQ ''hello world''])] [] =
     ''echo '' @ [SQUOTE] @ ''hello world'' @ [SQUOTE] \<and>
   split_ret (ShellSplit (Some (''echo '' @ [SQUOTE] @ ''hello world'' @ [SQUOTE] @ [NUL])) True 32) = 2 \<and>
   argv_strings (ShellSplit (Some (''echo '' @ [SQUOTE] @ ''hello world'' @ [SQUOTE] @ [NUL])) True 32) =
     [''echo'', ''hello world'']"
proof -
  have ok: "line_ok [([], [Bare ''echo'']), ('' '', [SQ ''hello world''])] []"
    by (simp add: line_ok_def blank_def token_ok_def is_ws_def NUL_def SQUOTE_def DQUOTE_def)
  have le: "int (length [([], [Bare ''echo'']), ('' '', [SQ ''hello world''])]) \<le> 32"
    by simp
  show ?thesis
    using ok ShellSplit_tokens [OF ok le, of "[]"]
    by (simp add: line_src_def line_tokens_def token_src_def token_text_def)
qed

text \<open>
  Claim C7. ShellSplit rejects instead of truncating: a line of more tokens than
  \<open>max_args\<close> (the capacity of \<open>argv\<close>, not negative) returns \<open>-1\<close>; a null line pointer
  or a null \<open>argv\<close> returns \<open>-1\<close>; an empty or white-space-only line returns \<open>0\<close> and no
  argument, whatever \<open>max_args\<close> is.
\<close>

theorem ShellSplit_rejects:
  "split_ret (ShellSplit None argv_given max_args) = - 1 \<and>
   split_ret (ShellSplit cmdline False max_args) = - 1 \<and>
   (line_ok items trail \<and> 0 \<le> max_args \<and> max_args < int (length items) \<longrightarrow>
      split_ret (ShellSplit (Some (line_src items trail @ NUL # rest)) True max_args) = - 1) \<and>
   (blank s \<longrightarrow>
      split_ret (ShellSplit (Some (s @ NUL # rest)) True max_args) = 0 \<and>
      argv_strings (ShellSplit (Some (s @ NUL # rest)) True max_args) = [])"
proof (intro conjI impI)
  show "split_ret (ShellSplit None argv_given max_args) = - 1"
    by (simp add: ShellSplit_def split_ret_def)
  show "split_ret (ShellSplit cmdline False max_args) = - 1"
    by (cases cmdline) (simp_all add: ShellSplit_def split_ret_def)
next
  assume a: "line_ok items trail \<and> 0 \<le> max_args \<and> max_args < int (length items)"
  then have ok: "line_ok items trail" by simp
  have "split_post (ShellSplit (Some (line_src items trail @ NUL # rest)) True max_args) 0 max_args
          (line_tokens items)"
    using ShellSplit_tok [OF line_no_NUL [OF ok]] by (simp add: tok_line [OF ok])
  moreover have "length (line_tokens items) = length items"
    by (simp add: line_tokens_def)
  ultimately show "split_ret (ShellSplit (Some (line_src items trail @ NUL # rest)) True max_args) = - 1"
    using a by (cases items) (auto simp add: split_post_def split_ret_def line_tokens_def)
next
  assume b: "blank s"
  have "split_post (ShellSplit (Some (s @ NUL # rest)) True max_args) 0 max_args []"
    using ShellSplit_tok [OF blank_no_NUL [OF b]] by (simp add: tok_blank_end [OF b])
  then show "split_ret (ShellSplit (Some (s @ NUL # rest)) True max_args) = 0"
    and "argv_strings (ShellSplit (Some (s @ NUL # rest)) True max_args) = []"
    by (simp_all add: split_post_def split_ret_def)
qed

theorem ShellSplit_rejects_witness:
  "line_ok [([], [Bare ''a'']), ('' '', [Bare ''b'']), ('' '', [Bare ''c'']), ('' '', [Bare ''d''])] [] \<and>
   split_ret (ShellSplit (Some (''a b c d'' @ [NUL])) True 2) = - 1 \<and>
   split_ret (ShellSplit None True 2) = - 1 \<and>
   split_ret (ShellSplit (Some (''a b c d'' @ [NUL])) False 2) = - 1 \<and>
   blank [CHR '' '', CHR 0x09, CHR '' ''] \<and>
   split_ret (ShellSplit (Some ([CHR '' '', CHR 0x09, CHR '' ''] @ [NUL])) True 2) = 0 \<and>
   split_ret (ShellSplit (Some [NUL]) True 2) = 0"
proof -
  have ok: "line_ok [([], [Bare ''a'']), ('' '', [Bare ''b'']), ('' '', [Bare ''c'']),
              ('' '', [Bare ''d''])] []"
    by (simp add: line_ok_def blank_def token_ok_def is_ws_def NUL_def SQUOTE_def DQUOTE_def)
  have bl: "blank [CHR '' '', CHR 0x09, CHR '' '']" "blank []"
    by (simp_all add: blank_def is_ws_def)
  show ?thesis
    using ok bl
      ShellSplit_rejects [of True 2 "Some (''a b c d'' @ [NUL])"
        "[([], [Bare ''a'']), ('' '', [Bare ''b'']), ('' '', [Bare ''c'']), ('' '', [Bare ''d''])]"
        "[]" "[]" "[CHR '' '', CHR 0x09, CHR '' '']"]
      ShellSplit_rejects [of True 2 None "[]" "[]" "[]" "[]"]
    by (simp add: line_src_def token_src_def)
qed

section \<open>CommandRegistry (command\_registry.hpp)\<close>

text \<open>
  A command callback \<^verbatim>\<open>int (*)(int argc, char* argv[], void* ctx)\<close> gets the argument
  count, the argument strings and its context pointer, and acts on the rest of the program,
  whose state is \<open>'w\<close>; it returns its status code and the new state. \<open>'c\<close> is the type of
  context pointers.
\<close>

type_synonym ('c, 'w) CmdFn = "int \<Rightarrow> string list \<Rightarrow> 'c \<Rightarrow> 'w \<Rightarrow> int \<times> 'w"

record ('c, 'w) CmdEntry =
  name :: string
  desc :: "string option"
  fn :: "('c, 'w) CmdFn"
  ctx :: 'c

text \<open>
  The table \<^verbatim>\<open>entries_[kMaxCommands]\<close> with its fill count \<^verbatim>\<open>count_\<close> is the list
  \<open>entries\<close> of the slots \<^verbatim>\<open>entries_[0 .. count_-1]\<close>, in this order, so that \<^verbatim>\<open>count_\<close>
  is its length; no function reads a slot at or above \<^verbatim>\<open>count_\<close>. An entry below
  \<^verbatim>\<open>count_\<close> was written by Register, so its name and callback are not null; the
  description may be. (Member names lose their trailing underscore.)
\<close>

record ('c, 'w) CommandRegistry =
  entries :: "('c, 'w) CmdEntry list"

definition kMaxCommands :: nat where
  "kMaxCommands = 64"

definition kMaxArgs :: int where
  "kMaxArgs = 32"

definition Count :: "('c, 'w) CommandRegistry \<Rightarrow> nat" where
  "Count r = length (entries r)"

definition empty_registry :: "('c, 'w) CommandRegistry" where
  "empty_registry = \<lparr>entries = []\<rparr>"

text \<open>The loop \<^verbatim>\<open>for (i = 0; i < count_; ++i) if (strcmp(entries_[i].name, name) == 0)\<close>
  of Register, Execute and FindByName: the first entry of that name.\<close>

fun find_entry :: "('c, 'w) CmdEntry list \<Rightarrow> string \<Rightarrow> ('c, 'w) CmdEntry option" where
  "find_entry [] n = None"
| "find_entry (e # es) n = (if name e = n then Some e else find_entry es n)"

definition Register ::
  "('c, 'w) CommandRegistry \<Rightarrow> string option \<Rightarrow> string option \<Rightarrow> ('c, 'w) CmdFn option \<Rightarrow> 'c \<Rightarrow>
   bool \<times> ('c, 'w) CommandRegistry" where
  "Register r nm d f c =
     (case nm of
        None \<Rightarrow> (False, r)
      | Some n \<Rightarrow>
          (case f of
             None \<Rightarrow> (False, r)
           | Some g \<Rightarrow>
               if Count r \<ge> kMaxCommands then (False, r)
               else if find_entry (entries r) n \<noteq> None then (False, r)
               else (True, r\<lparr>entries := entries r @ [\<lparr>name = n, desc = d, fn = g, ctx = c\<rparr>]\<rparr>)))"

definition FindByName ::
  "('c, 'w) CommandRegistry \<Rightarrow> string option \<Rightarrow> ('c, 'w) CmdEntry option" where
  "FindByName r nm = (case nm of None \<Rightarrow> None | Some n \<Rightarrow> find_entry (entries r) n)"

text \<open>
  \<^verbatim>\<open>char buf[128]; int n = std::snprintf(buf, sizeof(buf), ...);\<close> leaves in \<open>buf\<close> the first
  \<open>sizeof(buf) - 1\<close> characters of the formatted text and returns the length of the whole text.
  A call \<^verbatim>\<open>output_fn(buf, n, output_ctx)\<close> is recorded as the text in the buffer and the
  length passed.
\<close>

definition c_snprintf :: "nat \<Rightarrow> string \<Rightarrow> string \<times> int" where
  "c_snprintf cap s = (take (cap - 1) s, int (length s))"

type_synonym out_call = "string \<times> nat"

definition emit_fmt :: "string \<Rightarrow> out_call list" where
  "emit_fmt s = (case c_snprintf 128 s of (buf, n) \<Rightarrow> if n > 0 then [(buf, nat n)] else [])"

definition out_text :: "out_call list \<Rightarrow> string" where
  "out_text calls = concat (map fst calls)"

definition CRLF :: string where
  "CRLF = [CHR 0x0D, CHR 0x0A]"

text \<open>\<^verbatim>\<open>%-16s\<close>: left-justified in a field of at least 16 columns.\<close>

definition ljust :: "nat \<Rightarrow> string \<Rightarrow> string" where
  "ljust w s = s @ replicate (w - length s) (CHR '' '')"

definition desc_text :: "('c, 'w) CmdEntry \<Rightarrow> string" where
  "desc_text e = (case desc e of None \<Rightarrow> [] | Some d \<Rightarrow> d)"

definition help_line :: "('c, 'w) CmdEntry \<Rightarrow> string" where
  "help_line e = ''  '' @ ljust 16 (name e) @ '' - '' @ desc_text e @ CRLF"

fun help_lines :: "('c, 'w) CmdEntry list \<Rightarrow> out_call list" where
  "help_lines [] = []"
| "help_lines (e # es) = emit_fmt (help_line e) @ help_lines es"

definition help_header :: string where
  "help_header = ''Available commands:'' @ CRLF"

definition PrintHelp :: "('c, 'w) CommandRegistry \<Rightarrow> bool \<Rightarrow> out_call list" where
  "PrintHelp r output_fn =
     (if \<not> output_fn then []
      else (help_header, length help_header) # help_lines (entries r))"

text \<open>
  \<^verbatim>\<open>int Execute(char* cmdline, OutputFn output_fn, void* output_ctx)\<close>. \<open>output_fn\<close> says
  whether the callback is non-null. The result is the returned code, the calls made to
  \<open>output_fn\<close> in order, and the state of the rest of the program.
\<close>

definition Execute ::
  "('c, 'w) CommandRegistry \<Rightarrow> char list option \<Rightarrow> bool \<Rightarrow> 'w \<Rightarrow> int \<times> out_call list \<times> 'w" where
  "Execute r cmdline output_fn w =
     (case cmdline of
        None \<Rightarrow> (- 2, [], w)
      | Some buf \<Rightarrow>
          (let sp = ShellSplit (Some buf) True kMaxArgs;
               argc = split_ret sp;
               argv = argv_strings sp
           in if argc < 0 then (- 2, [], w)
              else if argc = 0 then (0, [], w)
              else if argv ! 0 = ''help'' then (0, PrintHelp r output_fn, w)
              else
                (case find_entry (entries r) (argv ! 0) of
                   Some e \<Rightarrow> (case fn e argc argv (ctx e) w of (rc, w') \<Rightarrow> (rc, [], w'))
                 | None \<Rightarrow>
                     (- 1,
                      if output_fn then emit_fmt (''Unknown command: '' @ argv ! 0 @ CRLF) else [],
                      w))))"

text \<open>The callbacks of the tests (test\_command\_registry.cpp); the program state they act on
  is the counter that \<^verbatim>\<open>test_cmd_ctx\<close> increments.\<close>

definition test_cmd_ok :: "(unit, nat) CmdFn" where
  "test_cmd_ok argc argv c w = (0, w)"

definition test_cmd_fail :: "(unit, nat) CmdFn" where
  "test_cmd_fail argc argv c w = (42, w)"

definition test_cmd_ctx :: "(unit, nat) CmdFn" where
  "test_cmd_ctx argc argv c w = (0, w + 1)"

text \<open>The registries of the examples below, built with Register from the empty one.\<close>

definition test_registry :: "(unit, nat) CommandRegistry" where
  "test_registry =
     snd (Register (snd (Register empty_registry (Some ''ok'') (Some ''returns 0'') (Some test_cmd_ok) ()))
       (Some ''fail'') (Some ''returns 42'') (Some test_cmd_fail) ())"

definition long_desc :: string where
  "long_desc = replicate 110 (CHR ''d'')"

definition long_registry :: "(unit, nat) CommandRegistry" where
  "long_registry = snd (Register empty_registry (Some ''x'') (Some long_desc) (Some test_cmd_ok) ())"


definition help_registry :: "(unit, nat) CommandRegistry" where
  "help_registry =
     snd (Register empty_registry (Some ''help'') (Some ''mine'') (Some test_cmd_ctx) ())"

definition many_args :: "char list" where
  "many_args = concat (replicate 33 ''a '') @ [NUL]"


text \<open>The invariant of the table: at most \<open>kMaxCommands\<close> entries, no two of one name.\<close>

lemma find_entry_None: "find_entry es n = None \<longleftrightarrow> (\<forall>e\<in>set es. name e \<noteq> n)"
  by (induction es) auto

lemma find_entry_Some: "find_entry es n = Some e \<Longrightarrow> e \<in> set es \<and> name e = n"
  by (induction es) (auto split: if_splits)

lemma find_entry_distinct:
  "distinct (map name es) \<Longrightarrow> e \<in> set es \<Longrightarrow> find_entry es (name e) = Some e"
  by (induction es) (auto simp: rev_image_eqI)

lemma find_entry_append:
  "find_entry (es @ fs) n = (case find_entry es n of None \<Rightarrow> find_entry fs n | Some e \<Rightarrow> Some e)"
  by (induction es) auto

definition registry_ok :: "('c, 'w) CommandRegistry \<Rightarrow> bool" where
  "registry_ok r \<longleftrightarrow> Count r \<le> kMaxCommands \<and> distinct (map name (entries r))"

lemma registry_ok_empty: "registry_ok empty_registry"
  by (simp add: registry_ok_def empty_registry_def Count_def)

lemma Register_ok: "registry_ok r \<Longrightarrow> registry_ok (snd (Register r nm d f c))"
  by (auto simp: registry_ok_def Register_def Count_def find_entry_None
      split: option.splits)

lemma test_registry_entries:
  "entries test_registry =
     [\<lparr>name = ''ok'', desc = Some ''returns 0'', fn = test_cmd_ok, ctx = ()\<rparr>,
      \<lparr>name = ''fail'', desc = Some ''returns 42'', fn = test_cmd_fail, ctx = ()\<rparr>]"
  by (simp add: test_registry_def Register_def empty_registry_def Count_def kMaxCommands_def)

text \<open>
  Claim C5. Register fails exactly when the name is null, the callback is null, the table
  holds \<open>kMaxCommands = 64\<close> entries, or an entry of that name exists; a failed call leaves
  the registry as it was. A successful call appends the new entry after the existing ones
  and adds one to the count; registering the same name again then fails and changes nothing.
\<close>

theorem Register_spec:
  "(\<not> fst (Register r nm d f c)) =
      (nm = None \<or> f = None \<or> kMaxCommands \<le> Count r \<or>
       (\<exists>e \<in> set (entries r). Some (name e) = nm)) \<and>
   kMaxCommands = 64 \<and>
   (\<not> fst (Register r nm d f c) \<longrightarrow> snd (Register r nm d f c) = r) \<and>
   (fst (Register r (Some n) d (Some g) c) \<longrightarrow>
      entries (snd (Register r (Some n) d (Some g) c)) =
        entries r @ [\<lparr>name = n, desc = d, fn = g, ctx = c\<rparr>] \<and>
      Count (snd (Register r (Some n) d (Some g) c)) = Count r + 1 \<and>
      Register (snd (Register r (Some n) d (Some g) c)) (Some n) d' f' c' =
        (False, snd (Register r (Some n) d (Some g) c)))"
  by (auto simp: Register_def Count_def find_entry_None find_entry_append kMaxCommands_def
      split: option.splits)

theorem Register_spec_witness:
  "fst (Register (empty_registry :: (unit, nat) CommandRegistry) (Some ''dup'') (Some ''first'')
         (Some test_cmd_ok) ()) \<and>
   Count (snd (Register (empty_registry :: (unit, nat) CommandRegistry) (Some ''dup'')
         (Some ''first'') (Some test_cmd_ok) ())) = 1 \<and>
   \<not> fst (Register (snd (Register (empty_registry :: (unit, nat) CommandRegistry) (Some ''dup'')
         (Some ''first'') (Some test_cmd_ok) ())) (Some ''dup'') (Some ''second'')
         (Some test_cmd_ok) ()) \<and>
   Count (snd (Register (snd (Register (empty_registry :: (unit, nat) CommandRegistry) (Some ''dup'')
         (Some ''first'') (Some test_cmd_ok) ())) (Some ''dup'') (Some ''second'')
         (Some test_cmd_ok) ())) = 1 \<and>
   \<not> fst (Register (empty_registry :: (unit, nat) CommandRegistry) None (Some ''desc'')
         (Some test_cmd_ok) ()) \<and>
   \<not> fst (Register (empty_registry :: (unit, nat) CommandRegistry) (Some ''name'') (Some ''desc'')
         None ())"
proof -
  have ok: "fst (Register (empty_registry :: (unit, nat) CommandRegistry) (Some ''dup'')
         (Some ''first'') (Some test_cmd_ok) ())"
    by (simp add: Register_def empty_registry_def Count_def kMaxCommands_def)
  show ?thesis
    using ok
      Register_spec [of "empty_registry :: (unit, nat) CommandRegistry" "Some ''dup''"
        "Some ''first''" "Some test_cmd_ok" "()" "''dup''" test_cmd_ok "Some ''second''"
        "Some test_cmd_ok" "()"]
      Register_spec [of "empty_registry :: (unit, nat) CommandRegistry" None
        "Some ''desc''" "Some test_cmd_ok" "()" "''dup''" test_cmd_ok "Some ''second''"
        "Some test_cmd_ok" "()"]
      Register_spec [of "empty_registry :: (unit, nat) CommandRegistry" "Some ''name''"
        "Some ''desc''" None "()" "''dup''" test_cmd_ok "Some ''second''"
        "Some test_cmd_ok" "()"]
    by (simp add: empty_registry_def Count_def)
qed

subsection \<open>Execute\<close>

lemma out_text_append: "out_text (a @ b) = out_text a @ out_text b"
  by (simp add: out_text_def)

lemma sublist_append_left: "sublist x a \<Longrightarrow> sublist x (a @ b)"
  by (simp add: sublist_append)

lemma sublist_append_right: "sublist x b \<Longrightarrow> sublist x (a @ b)"
  by (simp add: sublist_append)

lemma emit_fmt_fits:
  "length s \<le> 127 \<Longrightarrow> s \<noteq> [] \<Longrightarrow> emit_fmt s = [(s, length s)]"
  by (simp add: emit_fmt_def c_snprintf_def)

lemma help_line_nonempty: "help_line e \<noteq> []"
  by (simp add: help_line_def)

lemma help_line_name: "sublist (name e) (help_line e)"
proof -
  have "help_line e = ''  '' @ name e @
          (replicate (16 - length (name e)) (CHR '' '') @ '' - '' @ desc_text e @ CRLF)"
    by (simp add: help_line_def ljust_def)
  then show ?thesis by (simp only: sublist_appendI)
qed

lemma help_line_desc: "sublist (desc_text e) (help_line e)"
proof -
  have "help_line e = (''  '' @ ljust 16 (name e) @ '' - '') @ desc_text e @ CRLF"
    by (simp add: help_line_def)
  then show ?thesis by (simp only: sublist_appendI)
qed

lemma help_lines_contain:
  assumes "e \<in> set es" and "length (help_line e) \<le> 127"
  shows "sublist (help_line e) (out_text (help_lines es))"
  using assms(1)
proof (induction es)
  case Nil
  then show ?case by simp
next
  case (Cons a es)
  show ?case
  proof (cases "a = e")
    case True
    then show ?thesis
      using assms(2) by (simp add: emit_fmt_fits help_line_nonempty out_text_def)
  next
    case False
    with Cons have "sublist (help_line e) (out_text (help_lines es))" by simp
    then show ?thesis
      by (simp add: out_text_append sublist_append_right)
  qed
qed

lemma PrintHelp_contains:
  assumes "e \<in> set (entries r)" and "length (help_line e) \<le> 127"
  shows "sublist (name e) (out_text (PrintHelp r True))"
    and "sublist (desc_text e) (out_text (PrintHelp r True))"
proof -
  have "sublist (help_line e) (out_text (help_lines (entries r)))"
    using assms by (rule help_lines_contain)
  then have "sublist (help_line e) (out_text (PrintHelp r True))"
    by (simp add: PrintHelp_def out_text_def sublist_append_right)
  then show "sublist (name e) (out_text (PrintHelp r True))"
    and "sublist (desc_text e) (out_text (PrintHelp r True))"
    using help_line_name [of e] help_line_desc [of e] sublist_order.order_trans by blast+
qed

lemma unknown_contains:
  "sublist ''Unknown command'' (out_text (emit_fmt (''Unknown command: '' @ a @ CRLF)))"
proof -
  have "take 127 (''Unknown command: '' @ a @ CRLF) = ''Unknown command'' @ take 112 ('': '' @ a @ CRLF)"
    by simp
  then show ?thesis
    by (simp add: emit_fmt_def c_snprintf_def out_text_def)
qed


lemma Execute_null: "Execute r None out w = (- 2, [], w)"
  by (simp add: Execute_def)

lemma Execute_parse_error:
  "split_ret (ShellSplit (Some buf) True kMaxArgs) < 0 \<Longrightarrow> Execute r (Some buf) out w = (- 2, [], w)"
  by (simp add: Execute_def Let_def)

lemma Execute_empty:
  "split_ret (ShellSplit (Some buf) True kMaxArgs) = 0 \<Longrightarrow> Execute r (Some buf) out w = (0, [], w)"
  by (simp add: Execute_def Let_def)

lemma Execute_help:
  "0 < split_ret (ShellSplit (Some buf) True kMaxArgs) \<Longrightarrow>
   argv_strings (ShellSplit (Some buf) True kMaxArgs) ! 0 = ''help'' \<Longrightarrow>
   Execute r (Some buf) out w = (0, PrintHelp r out, w)"
  by (simp add: Execute_def Let_def)

lemma Execute_found:
  "0 < split_ret (ShellSplit (Some buf) True kMaxArgs) \<Longrightarrow>
   argv_strings (ShellSplit (Some buf) True kMaxArgs) ! 0 \<noteq> ''help'' \<Longrightarrow>
   find_entry (entries r) (argv_strings (ShellSplit (Some buf) True kMaxArgs) ! 0) = Some e \<Longrightarrow>
   Execute r (Some buf) out w =
     (fst (fn e (split_ret (ShellSplit (Some buf) True kMaxArgs))
             (argv_strings (ShellSplit (Some buf) True kMaxArgs)) (ctx e) w), [],
      snd (fn e (split_ret (ShellSplit (Some buf) True kMaxArgs))
             (argv_strings (ShellSplit (Some buf) True kMaxArgs)) (ctx e) w))"
  by (simp add: Execute_def Let_def split: prod.splits)

lemma Execute_unknown:
  "0 < split_ret (ShellSplit (Some buf) True kMaxArgs) \<Longrightarrow>
   argv_strings (ShellSplit (Some buf) True kMaxArgs) ! 0 \<noteq> ''help'' \<Longrightarrow>
   find_entry (entries r) (argv_strings (ShellSplit (Some buf) True kMaxArgs) ! 0) = None \<Longrightarrow>
   Execute r (Some buf) out w =
     (- 1,
      if out then emit_fmt (''Unknown command: '' @
                      argv_strings (ShellSplit (Some buf) True kMaxArgs) ! 0 @ CRLF) else [],
      w)"
  by (simp add: Execute_def Let_def)

text \<open>
  Claim C1, as the code has it. With \<open>argc\<close> and \<open>argv\<close> what ShellSplit makes of the line
  (at most \<open>kMaxArgs = 32\<close> arguments): a null line or a tokenizer failure returns \<open>-2\<close>;
  no argument returns \<open>0\<close> with no output and no callback run; a first argument \<open>help\<close>
  returns \<open>0\<close> with the listing of PrintHelp as output and no callback run, and the listing
  holds the name and the description of every entry whose line (two spaces, the name padded
  to 16 columns, \<open>" - "\<close>, the description, CR LF) fits the 127 characters of the format
  buffer; a first argument that is the name of an entry runs that entry's callback on
  \<open>argc\<close>, \<open>argv\<close> and the stored context and returns its status code; any other first
  argument returns \<open>-1\<close>, runs no callback and, when an output callback is given, outputs a
  message holding \<open>Unknown command\<close>.
\<close>

theorem Execute_spec:
  assumes "sp = ShellSplit (Some buf) True kMaxArgs"
    and "argc = split_ret sp" and "argv = argv_strings sp"
  shows
   "Execute r None out w = (- 2, [], w) \<and>
    (argc < 0 \<longrightarrow> Execute r (Some buf) out w = (- 2, [], w)) \<and>
    (argc = 0 \<longrightarrow> Execute r (Some buf) out w = (0, [], w)) \<and>
    (0 < argc \<and> argv ! 0 = ''help'' \<longrightarrow>
       Execute r (Some buf) out w = (0, PrintHelp r out, w) \<and>
       (\<forall>e \<in> set (entries r). length (help_line e) \<le> 127 \<longrightarrow>
          sublist (name e) (out_text (PrintHelp r True)) \<and>
          sublist (desc_text e) (out_text (PrintHelp r True)))) \<and>
    (0 < argc \<and> argv ! 0 \<noteq> ''help'' \<and> distinct (map name (entries r)) \<and>
     e \<in> set (entries r) \<and> name e = argv ! 0 \<longrightarrow>
       Execute r (Some buf) out w =
         (fst (fn e argc argv (ctx e) w), [], snd (fn e argc argv (ctx e) w))) \<and>
    (0 < argc \<and> argv ! 0 \<noteq> ''help'' \<and> (\<forall>e \<in> set (entries r). name e \<noteq> argv ! 0) \<longrightarrow>
       fst (Execute r (Some buf) out w) = - 1 \<and>
       snd (snd (Execute r (Some buf) out w)) = w \<and>
       (out \<longrightarrow> sublist ''Unknown command'' (out_text (fst (snd (Execute r (Some buf) out w))))))"
proof (intro conjI impI ballI)
  show "Execute r None out w = (- 2, [], w)"
    by (rule Execute_null)
next
  assume "argc < 0"
  then show "Execute r (Some buf) out w = (- 2, [], w)"
    using assms by (simp add: Execute_parse_error)
next
  assume "argc = 0"
  then show "Execute r (Some buf) out w = (0, [], w)"
    using assms by (simp add: Execute_empty)
next
  assume "0 < argc \<and> argv ! 0 = ''help''"
  then show "Execute r (Some buf) out w = (0, PrintHelp r out, w)"
    using assms by (simp add: Execute_help)
next
  fix e' assume "e' \<in> set (entries r)" "length (help_line e') \<le> 127"
  then show "sublist (name e') (out_text (PrintHelp r True))"
    and "sublist (desc_text e') (out_text (PrintHelp r True))"
    by (rule PrintHelp_contains)+
next
  assume a: "0 < argc \<and> argv ! 0 \<noteq> ''help'' \<and> distinct (map name (entries r)) \<and>
     e \<in> set (entries r) \<and> name e = argv ! 0"
  then have "find_entry (entries r) (argv ! 0) = Some e"
    using find_entry_distinct [of "entries r" e] by simp
  then show "Execute r (Some buf) out w =
         (fst (fn e argc argv (ctx e) w), [], snd (fn e argc argv (ctx e) w))"
    using a assms by (simp add: Execute_found)
next
  assume a: "0 < argc \<and> argv ! 0 \<noteq> ''help'' \<and> (\<forall>e \<in> set (entries r). name e \<noteq> argv ! 0)"
  then have "find_entry (entries r) (argv ! 0) = None"
    by (simp add: find_entry_None)
  then have ex: "Execute r (Some buf) out w =
     (- 1, if out then emit_fmt (''Unknown command: '' @ argv ! 0 @ CRLF) else [], w)"
    using a assms by (simp add: Execute_unknown)
  show "fst (Execute r (Some buf) out w) = - 1"
    and "snd (snd (Execute r (Some buf) out w)) = w"
    by (simp_all add: ex)
  assume out
  with ex have "fst (snd (Execute r (Some buf) out w)) =
      emit_fmt (''Unknown command: '' @ argv ! 0 @ CRLF)"
    by simp
  then show "sublist ''Unknown command'' (out_text (fst (snd (Execute r (Some buf) out w))))"
    by (simp only: unknown_contains)
qed

theorem Execute_spec_witness:
  "Execute test_registry None True 0 = (- 2, [], 0) \<and>
   Execute test_registry (Some many_args) True 0 = (- 2, [], 0) \<and>
   Execute test_registry (Some [NUL]) True 0 = (0, [], 0) \<and>
   Execute test_registry (Some (''fail'' @ [NUL])) True 0 = (42, [], 0) \<and>
   fst (Execute test_registry (Some (''nonexistent'' @ [NUL])) True 0) = - 1 \<and>
   sublist ''Unknown command''
     (out_text (fst (snd (Execute test_registry (Some (''nonexistent'' @ [NUL])) True 0)))) \<and>
   Execute test_registry (Some (''help'' @ [NUL])) True 0 = (0, PrintHelp test_registry True, 0) \<and>
   sublist ''fail'' (out_text (PrintHelp test_registry True)) \<and>
   sublist ''returns 42'' (out_text (PrintHelp test_registry True))"
proof -
  let ?fail = "\<lparr>name = ''fail'', desc = Some ''returns 42'', fn = test_cmd_fail, ctx = ()\<rparr>"
  have sp_many: "split_ret (ShellSplit (Some many_args) True kMaxArgs) = - 1"
    by code_simp
  have sp_empty: "split_ret (ShellSplit (Some [NUL]) True kMaxArgs) = 0"
    by code_simp
  have sp_fail: "split_ret (ShellSplit (Some (''fail'' @ [NUL])) True kMaxArgs) = 1"
    "argv_strings (ShellSplit (Some (''fail'' @ [NUL])) True kMaxArgs) = [''fail'']"
    by code_simp+
  have sp_none: "split_ret (ShellSplit (Some (''nonexistent'' @ [NUL])) True kMaxArgs) = 1"
    "argv_strings (ShellSplit (Some (''nonexistent'' @ [NUL])) True kMaxArgs) = [''nonexistent'']"
    by code_simp+
  have sp_help: "split_ret (ShellSplit (Some (''help'' @ [NUL])) True kMaxArgs) = 1"
    "argv_strings (ShellSplit (Some (''help'' @ [NUL])) True kMaxArgs) = [''help'']"
    by code_simp+
  note es = test_registry_entries
  have a: "Execute test_registry None True 0 = (- 2, [], 0)"
    "Execute test_registry (Some many_args) True 0 = (- 2, [], 0)"
    using Execute_spec [OF refl refl refl, of test_registry True 0 many_args ?fail] sp_many
    by simp_all
  have b: "Execute test_registry (Some [NUL]) True 0 = (0, [], 0)"
    using Execute_spec [OF refl refl refl, of test_registry True 0 "[NUL]" ?fail] sp_empty
    by simp
  have c: "Execute test_registry (Some (''fail'' @ [NUL])) True 0 = (42, [], 0)"
    using Execute_spec [OF refl refl refl, of test_registry True 0 "''fail'' @ [NUL]" ?fail] sp_fail
    by (simp add: es test_cmd_fail_def)
  have d: "fst (Execute test_registry (Some (''nonexistent'' @ [NUL])) True 0) = - 1"
    "sublist ''Unknown command''
       (out_text (fst (snd (Execute test_registry (Some (''nonexistent'' @ [NUL])) True 0))))"
    using Execute_spec [OF refl refl refl, of test_registry True 0 "''nonexistent'' @ [NUL]" ?fail]
      sp_none
    by (simp_all add: es)
  have e: "Execute test_registry (Some (''help'' @ [NUL])) True 0 = (0, PrintHelp test_registry True, 0)"
    "sublist ''fail'' (out_text (PrintHelp test_registry True))"
    "sublist ''returns 42'' (out_text (PrintHelp test_registry True))"
    using Execute_spec [OF refl refl refl, of test_registry True 0 "''help'' @ [NUL]" ?fail] sp_help
    by (simp_all add: es help_line_def ljust_def desc_text_def CRLF_def)
  from a b c d e show ?thesis by simp
qed

text \<open>
  The listing does not hold every description: \<^verbatim>\<open>snprintf\<close> cuts a line at 127 characters.
  A command registered with a description of 110 characters is listed with the first 106 of
  them.
\<close>

theorem Execute_help_counterexample:
  "fst (Register (empty_registry :: (unit, nat) CommandRegistry) (Some ''x'') (Some long_desc)
          (Some test_cmd_ok) ()) \<and>
   map_option desc (FindByName long_registry (Some ''x'')) = Some (Some long_desc) \<and>
   fst (Execute long_registry (Some (''help'' @ [NUL])) True 0) = 0 \<and>
   \<not> sublist long_desc (out_text (fst (snd (Execute long_registry (Some (''help'' @ [NUL])) True 0))))"
  by code_simp

text \<open>
  Claim C9. Register has no reserved names: \<open>help\<close> is registered under the conditions of
  any other name, is counted, and is found by FindByName. For every registry, a line that
  ShellSplit splits with first argument \<open>help\<close> makes Execute return \<open>0\<close> with the built-in
  listing and the program state untouched: no callback runs, a registered \<open>help\<close> included.
\<close>

theorem help_is_shadowed:
  "(Count r < kMaxCommands \<and> (\<forall>e \<in> set (entries r). name e \<noteq> ''help'') \<longrightarrow>
      Register r (Some ''help'') d (Some g) c =
        (True, r\<lparr>entries := entries r @ [\<lparr>name = ''help'', desc = d, fn = g, ctx = c\<rparr>]\<rparr>) \<and>
      Count (snd (Register r (Some ''help'') d (Some g) c)) = Count r + 1 \<and>
      FindByName (snd (Register r (Some ''help'') d (Some g) c)) (Some ''help'') =
        Some \<lparr>name = ''help'', desc = d, fn = g, ctx = c\<rparr>) \<and>
   (0 < split_ret (ShellSplit (Some buf) True kMaxArgs) \<and>
    argv_strings (ShellSplit (Some buf) True kMaxArgs) ! 0 = ''help'' \<longrightarrow>
      Execute r' (Some buf) out w = (0, PrintHelp r' out, w))"
proof (intro conjI impI)
  assume a: "Count r < kMaxCommands \<and> (\<forall>e \<in> set (entries r). name e \<noteq> ''help'')"
  then have none: "find_entry (entries r) ''help'' = None"
    by (simp add: find_entry_None)
  with a show reg: "Register r (Some ''help'') d (Some g) c =
        (True, r\<lparr>entries := entries r @ [\<lparr>name = ''help'', desc = d, fn = g, ctx = c\<rparr>]\<rparr>)"
    by (simp add: Register_def)
  show "Count (snd (Register r (Some ''help'') d (Some g) c)) = Count r + 1"
    by (simp add: reg Count_def)
  show "FindByName (snd (Register r (Some ''help'') d (Some g) c)) (Some ''help'') =
        Some \<lparr>name = ''help'', desc = d, fn = g, ctx = c\<rparr>"
    by (simp add: reg FindByName_def find_entry_append none)
next
  assume "0 < split_ret (ShellSplit (Some buf) True kMaxArgs) \<and>
    argv_strings (ShellSplit (Some buf) True kMaxArgs) ! 0 = ''help''"
  then show "Execute r' (Some buf) out w = (0, PrintHelp r' out, w)"
    by (simp add: Execute_help)
qed

theorem help_is_shadowed_witness:
  "fst (Register (empty_registry :: (unit, nat) CommandRegistry) (Some ''help'') (Some ''mine'')
          (Some test_cmd_ctx) ()) \<and>
   Count help_registry = 1 \<and>
   map_option name (FindByName help_registry (Some ''help'')) = Some ''help'' \<and>
   test_cmd_ctx 1 [''help''] () 0 = (0, 1) \<and>
   Execute help_registry (Some (''help'' @ [NUL])) True 0 = (0, PrintHelp help_registry True, 0)"
proof -
  have sp_help: "0 < split_ret (ShellSplit (Some (''help'' @ [NUL])) True kMaxArgs) \<and>
    argv_strings (ShellSplit (Some (''help'' @ [NUL])) True kMaxArgs) ! 0 = ''help''"
    by code_simp
  have pre: "Count (empty_registry :: (unit, nat) CommandRegistry) < kMaxCommands \<and>
      (\<forall>e \<in> set (entries (empty_registry :: (unit, nat) CommandRegistry)). name e \<noteq> ''help'')"
    by (simp add: empty_registry_def Count_def kMaxCommands_def)
  note inst = help_is_shadowed [of "empty_registry :: (unit, nat) CommandRegistry" "Some ''mine''"
        test_cmd_ctx "()" "''help'' @ [NUL]" help_registry True 0]
  note reg = inst [THEN conjunct1, THEN mp, OF pre]
  note ex = inst [THEN conjunct2, THEN mp, OF sp_help]
  have "fst (Register (empty_registry :: (unit, nat) CommandRegistry) (Some ''help'') (Some ''mine'')
          (Some test_cmd_ctx) ())"
    by (simp add: reg [THEN conjunct1])
  moreover have "Count help_registry = 1"
    using reg [THEN conjunct2, THEN conjunct1]
    by (simp add: help_registry_def Count_def empty_registry_def)
  moreover have "map_option name (FindByName help_registry (Some ''help'')) = Some ''help''"
    using reg [THEN conjunct2, THEN conjunct2] by (simp add: help_registry_def)
  moreover have "test_cmd_ctx 1 [''help''] () 0 = (0, 1)"
    by (simp add: test_cmd_ctx_def)
  ultimately show ?thesis
    using ex by simp
qed

section \<open>TelnetSession (telnet\_session.hpp)\<close>

subsection \<open>State\<close>

definition kSE :: "8 word" where "kSE = 240"
definition kSB :: "8 word" where "kSB = 250"
definition kWILL :: "8 word" where "kWILL = 251"
definition kWONT :: "8 word" where "kWONT = 252"
definition kDO :: "8 word" where "kDO = 253"
definition kDONT :: "8 word" where "kDONT = 254"
definition kIAC :: "8 word" where "kIAC = 255"
definition kOptEcho :: "8 word" where "kOptEcho = 1"
definition kOptSGA :: "8 word" where "kOptSGA = 3"
definition kOptNAWS :: "8 word" where "kOptNAWS = 31"

text \<open>\<^verbatim>\<open>static_cast<char>(byte)\<close>: the character of the same bit pattern.\<close>

definition to_char :: "8 word \<Rightarrow> char" where
  "to_char b = char_of (unat b)"

record SessionConfig =
  username :: "string option"
  password :: "string option"
  prompt :: "string option"
  banner :: "string option"

datatype IacPhase = kNormal | kIac | kNego | kSub

record IacState =
  phase :: IacPhase
  prev_byte :: "8 word"

datatype Auth = kNeedUser | kNeedPass | kAuthorized

datatype ArrowPhase = kNone | kEsc | kBracket

definition kMaxCmdLen :: nat where
  "kMaxCmdLen = 256"

definition kHistorySize :: nat where
  "kHistorySize = 16"

text \<open>
  The members of the session (without their trailing underscore), and two parts of its
  surroundings: \<open>sent\<close>, the bytes handed to \<^verbatim>\<open>::send\<close> on the socket so far, and \<open>world\<close>,
  the program state the command callbacks act on. \<open>registry\<close> is the registry that
  \<^verbatim>\<open>registry_\<close> points to. The buffers are byte arrays: \<open>cmd_buf\<close> of \<open>kMaxCmdLen\<close>
  bytes, \<open>user_buf\<close> of 64, \<open>history\<close> of \<open>kHistorySize\<close> rows of \<open>kMaxCmdLen\<close> bytes.
\<close>

record ('c, 'w) TelnetSession =
  sock_fd :: int
  running :: bool
  registry :: "('c, 'w) CommandRegistry"
  config :: SessionConfig
  iac :: IacState
  auth :: Auth
  user_buf :: "char list"
  arrow :: ArrowPhase
  cmd_buf :: "char list"
  cmd_len :: nat
  history :: "char list list"
  history_count :: nat
  history_write :: nat
  history_nav :: int
  output_paused :: bool
  sent :: "char list"
  world :: 'w

text \<open>\<^verbatim>\<open>memset(buf, 0, n)\<close> and \<^verbatim>\<open>strncpy(dst, src, n)\<close> (which pads with NUL up to
  \<open>n\<close> bytes), for \<open>n\<close> within the destination.\<close>

definition c_memset0 :: "char list \<Rightarrow> nat \<Rightarrow> char list" where
  "c_memset0 buf n = replicate n NUL @ drop n buf"

definition c_strncpy :: "char list \<Rightarrow> char list \<Rightarrow> nat \<Rightarrow> char list" where
  "c_strncpy dst src n =
     take n (c_str src) @ replicate (n - length (c_str src)) NUL @ drop n dst"

definition Init ::
  "int \<Rightarrow> ('c, 'w) CommandRegistry \<Rightarrow> SessionConfig \<Rightarrow> ('c, 'w) TelnetSession \<Rightarrow>
   ('c, 'w) TelnetSession" where
  "Init fd reg cfg s =
     s\<lparr>sock_fd := fd, registry := reg, config := cfg, running := True,
       cmd_len := 0,
       cmd_buf := c_memset0 (cmd_buf s) kMaxCmdLen,
       user_buf := c_memset0 (user_buf s) 64,
       history := replicate kHistorySize (replicate kMaxCmdLen NUL),
       history_count := 0, history_write := 0, history_nav := - 1,
       output_paused := False,
       iac := \<lparr>phase = kNormal, prev_byte = 0\<rparr>,
       arrow := kNone,
       auth := (if username cfg \<noteq> None \<and> password cfg \<noteq> None then kNeedUser else kAuthorized)\<rparr>"

text \<open>A session object before Init: the default member initialisers, those of
  \<^verbatim>\<open>SessionConfig\<close> included.\<close>

definition default_banner :: string where
  "default_banner =
     ''*===========================================================*'' @ CRLF @
     ''  telsh v1.0 -- Embedded Debug Shell'' @ CRLF @
     ''*===========================================================*'' @ CRLF"

definition new_session :: "('c, 'w) CommandRegistry \<Rightarrow> 'w \<Rightarrow> ('c, 'w) TelnetSession" where
  "new_session reg w =
     \<lparr>sock_fd = - 1, running = False, registry = reg,
      config = \<lparr>username = None, password = None, prompt = Some ''telsh> '',
                banner = Some default_banner\<rparr>,
      iac = \<lparr>phase = kNormal, prev_byte = 0\<rparr>, auth = kAuthorized,
      user_buf = replicate 64 NUL, arrow = kNone,
      cmd_buf = replicate kMaxCmdLen NUL, cmd_len = 0,
      history = replicate kHistorySize (replicate kMaxCmdLen NUL),
      history_count = 0, history_write = 0, history_nav = - 1,
      output_paused = False, sent = [], world = w\<rparr>"

subsection \<open>Output\<close>

definition Send :: "char list option \<Rightarrow> nat \<Rightarrow> ('c, 'w) TelnetSession \<Rightarrow> ('c, 'w) TelnetSession" where
  "Send data len s =
     (case data of
        None \<Rightarrow> s
      | Some d \<Rightarrow>
          if len = 0 \<or> sock_fd s < 0 then s
          else if output_paused s then s
          else s\<lparr>sent := sent s @ take len d\<rparr>)"

definition SendStr :: "string option \<Rightarrow> ('c, 'w) TelnetSession \<Rightarrow> ('c, 'w) TelnetSession" where
  "SendStr str s = (case str of None \<Rightarrow> s | Some t \<Rightarrow> Send (Some t) (length t) s)"

definition SendIac :: "8 word \<Rightarrow> 8 word \<Rightarrow> ('c, 'w) TelnetSession \<Rightarrow> ('c, 'w) TelnetSession" where
  "SendIac cmd opt s = Send (Some [to_char kIAC, to_char cmd, to_char opt]) 3 s"

definition ShowPrompt :: "('c, 'w) TelnetSession \<Rightarrow> ('c, 'w) TelnetSession" where
  "ShowPrompt s =
     (case auth s of
        kNeedUser \<Rightarrow> SendStr (Some ''username: '') s
      | kNeedPass \<Rightarrow> SendStr (Some ''password: '') s
      | kAuthorized \<Rightarrow> SendStr (prompt (config s)) s)"

definition Stop :: "('c, 'w) TelnetSession \<Rightarrow> ('c, 'w) TelnetSession" where
  "Stop s = s\<lparr>running := False\<rparr>"

definition Close :: "('c, 'w) TelnetSession \<Rightarrow> ('c, 'w) TelnetSession" where
  "Close s = (if sock_fd s \<ge> 0 then s\<lparr>sock_fd := - 1\<rparr> else s)"

subsection \<open>The IAC filter\<close>

definition FilterIac :: "8 word \<Rightarrow> IacState \<Rightarrow> char \<times> IacState" where
  "FilterIac byte st =
     (case phase st of
        kNormal \<Rightarrow>
          if byte = kIAC then (NUL, st\<lparr>phase := kIac\<rparr>)
          else (to_char byte, st)
      | kIac \<Rightarrow>
          if byte = kIAC then (to_char byte, st\<lparr>phase := kNormal\<rparr>)
          else if byte \<ge> kWILL \<and> byte \<le> kDONT then (NUL, st\<lparr>phase := kNego\<rparr>)
          else if byte = kSB then (NUL, st\<lparr>phase := kSub, prev_byte := 0\<rparr>)
          else (NUL, st\<lparr>phase := kNormal\<rparr>)
      | kNego \<Rightarrow> (NUL, st\<lparr>phase := kNormal\<rparr>)
      | kSub \<Rightarrow>
          (NUL, (if prev_byte st = kIAC \<and> byte = kSE then st\<lparr>phase := kNormal\<rparr> else st)
                  \<lparr>prev_byte := byte\<rparr>))"

text \<open>Feeding a sequence of bytes: the characters returned, in order, and the last state.\<close>

fun filter_bytes :: "8 word list \<Rightarrow> IacState \<Rightarrow> char list \<times> IacState" where
  "filter_bytes [] st = ([], st)"
| "filter_bytes (b # bs) st =
     (case FilterIac b st of (c, st') \<Rightarrow>
        (case filter_bytes bs st' of (cs, st'') \<Rightarrow> (c # cs, st'')))"

definition st0 :: IacState where
  "st0 = \<lparr>phase = kNormal, prev_byte = 0\<rparr>"

text \<open>Whether the bytes hold an IAC with SE right after it.\<close>

fun has_iac_se :: "8 word list \<Rightarrow> bool" where
  "has_iac_se (a # b # bs) \<longleftrightarrow> (a = kIAC \<and> b = kSE) \<or> has_iac_se (b # bs)"
| "has_iac_se bs \<longleftrightarrow> False"

text \<open>
  What a caller takes from the filter. The zero character is the mark of a consumed byte
  (the comment of FilterIac: returns printable char or the zero character if consumed), and
  the read loop of Run goes on to the next byte when it gets it, without a call of
  ProcessChar; the characters emitted are the others.
\<close>

definition emitted :: "8 word list \<Rightarrow> IacState \<Rightarrow> char list" where
  "emitted bytes st = filter (\<lambda>c. c \<noteq> NUL) (fst (filter_bytes bytes st))"

lemma emitted_single:
  "emitted [b] st = (if fst (FilterIac b st) = NUL then [] else [fst (FilterIac b st)])"
  by (simp add: emitted_def split: prod.splits)

lemma emitted_consumed: "filter (\<lambda>c. c \<noteq> NUL) (replicate n NUL) = []"
  by simp

lemma to_char_IAC: "to_char kIAC = CHR 0xFF"
  unfolding to_char_def kIAC_def by code_simp

lemma to_char_0: "to_char 0 = NUL"
  unfolding to_char_def NUL_def by code_simp

lemma to_char_eq_NUL: "to_char b = NUL \<longleftrightarrow> b = 0"
proof -
  have lt: "unat b < 256" using unsigned_less [of b, where 'a = nat] by simp
  have nul: "NUL = char_of (0 :: nat)"
    unfolding NUL_def by code_simp
  have "to_char b = NUL \<longleftrightarrow> char_of (unat b) = char_of (0 :: nat)"
    by (simp only: to_char_def nul)
  also have "\<dots> \<longleftrightarrow> unat b mod 256 = (0 :: nat) mod 256"
    by (rule char_of_quasi_inj)
  also have "\<dots> \<longleftrightarrow> b = 0"
    using lt by (simp add: unat_eq_0)
  finally show ?thesis .
qed

lemma kWILL_order:
  assumes "kWILL \<le> b \<and> b \<le> kDONT"
  shows "b \<noteq> kIAC"
  using assms by (auto simp: kIAC_def kWILL_def kDONT_def word_le_nat_alt)

lemma FilterIac_sub_stays:
  "phase st = kSub \<Longrightarrow> \<not> has_iac_se (prev_byte st # bs) \<Longrightarrow>
   filter_bytes bs st =
     (replicate (length bs) NUL, st\<lparr>prev_byte := last (prev_byte st # bs)\<rparr>)"
proof (induction bs arbitrary: st)
  case Nil
  then show ?case by simp
next
  case (Cons b bs)
  from Cons.prems have step: "FilterIac b st = (NUL, st\<lparr>prev_byte := b\<rparr>)"
    by (auto simp: FilterIac_def)
  have "filter_bytes bs (st\<lparr>prev_byte := b\<rparr>) =
          (replicate (length bs) NUL,
           st\<lparr>prev_byte := b\<rparr>\<lparr>prev_byte := last (prev_byte (st\<lparr>prev_byte := b\<rparr>) # bs)\<rparr>)"
    using Cons.prems by (intro Cons.IH) simp_all
  then show ?case
    using step by simp
qed

lemma filter_bytes_append:
  "filter_bytes (as @ bs) st =
     (case filter_bytes as st of (cs, st') \<Rightarrow>
        (case filter_bytes bs st' of (ds, st'') \<Rightarrow> (cs @ ds, st'')))"
  by (induction as arbitrary: st) (auto split: prod.splits)

lemma FilterIac_sub_block:
  assumes "phase st = kSub" and "\<not> has_iac_se (prev_byte st # body @ [kIAC])"
  shows "filter_bytes (body @ [kIAC]) st =
           (replicate (length body + 1) NUL, \<lparr>phase = kSub, prev_byte = kIAC\<rparr>)"
    and "filter_bytes (body @ [kIAC, kSE]) st =
           (replicate (length body + 2) NUL, \<lparr>phase = kNormal, prev_byte = kSE\<rparr>)"
proof -
  have stay: "filter_bytes (body @ [kIAC]) st =
      (replicate (length (body @ [kIAC])) NUL, st\<lparr>prev_byte := last (prev_byte st # body @ [kIAC])\<rparr>)"
    using assms by (rule FilterIac_sub_stays)
  have st': "st\<lparr>prev_byte := kIAC\<rparr> = \<lparr>phase = kSub, prev_byte = kIAC\<rparr>"
    using assms(1) by (cases st) simp
  show a: "filter_bytes (body @ [kIAC]) st =
           (replicate (length body + 1) NUL, \<lparr>phase = kSub, prev_byte = kIAC\<rparr>)"
    using stay st' by simp
  have "filter_bytes ((body @ [kIAC]) @ [kSE]) st =
           (replicate (length body + 1) NUL @ [NUL], \<lparr>phase = kNormal, prev_byte = kSE\<rparr>)"
    by (subst filter_bytes_append) (simp add: a FilterIac_def)
  then show "filter_bytes (body @ [kIAC, kSE]) st =
           (replicate (length body + 2) NUL, \<lparr>phase = kNormal, prev_byte = kSE\<rparr>)"
    by (simp add: replicate_append_same)
qed

text \<open>
  Claim C2, as the code has it. The IAC filter, byte by byte. Normal: IAC goes to SawIac
  and nothing is emitted; the byte 0 is consumed, the state unchanged, since its character
  is the consumed mark itself; any other byte is emitted as it is, the state unchanged.
  SawIac: IAC emits the one character 0xFF and goes to Normal; a byte from WILL (251) to
  DONT (254) goes to Negotiating; SB (250) goes to Subnegotiating; any other byte goes to
  Normal; all three are consumed. Negotiating: one byte is consumed, then Normal.
  Subnegotiating: every byte is consumed, and the state stays until SE (240) comes right
  after IAC, then Normal. So IAC WILL SGA emits nothing, IAC IAC emits exactly one 0xFF,
  and a block IAC SB ... IAC SE whose body holds no earlier IAC SE emits nothing and ends in
  Normal.
\<close>

theorem FilterIac_machine:
  "(phase st = kNormal \<longrightarrow>
      FilterIac kIAC st = (NUL, st\<lparr>phase := kIac\<rparr>) \<and> emitted [kIAC] st = [] \<and>
      FilterIac 0 st = (NUL, st) \<and> emitted [0] st = [] \<and>
      (b \<noteq> kIAC \<and> b \<noteq> 0 \<longrightarrow>
         FilterIac b st = (to_char b, st) \<and> to_char b \<noteq> NUL \<and> emitted [b] st = [to_char b])) \<and>
   (phase st = kIac \<longrightarrow>
      FilterIac kIAC st = (CHR 0xFF, st\<lparr>phase := kNormal\<rparr>) \<and>
      emitted [kIAC] st = [CHR 0xFF] \<and>
      (kWILL \<le> b \<and> b \<le> kDONT \<longrightarrow> FilterIac b st = (NUL, st\<lparr>phase := kNego\<rparr>)) \<and>
      FilterIac kSB st = (NUL, st\<lparr>phase := kSub, prev_byte := 0\<rparr>) \<and>
      (b \<noteq> kIAC \<and> \<not> (kWILL \<le> b \<and> b \<le> kDONT) \<and> b \<noteq> kSB \<longrightarrow>
         FilterIac b st = (NUL, st\<lparr>phase := kNormal\<rparr>)) \<and>
      (b \<noteq> kIAC \<longrightarrow> emitted [b] st = [])) \<and>
   (phase st = kNego \<longrightarrow>
      FilterIac b st = (NUL, st\<lparr>phase := kNormal\<rparr>) \<and> emitted [b] st = []) \<and>
   (phase st = kSub \<longrightarrow>
      FilterIac b st =
        (NUL, \<lparr>phase = (if prev_byte st = kIAC \<and> b = kSE then kNormal else kSub), prev_byte = b\<rparr>) \<and>
      emitted [b] st = []) \<and>
   (phase st = kSub \<and> \<not> has_iac_se (prev_byte st # body @ [kIAC]) \<longrightarrow>
      filter_bytes (body @ [kIAC]) st =
        (replicate (length body + 1) NUL, \<lparr>phase = kSub, prev_byte = kIAC\<rparr>) \<and>
      filter_bytes (body @ [kIAC, kSE]) st =
        (replicate (length body + 2) NUL, \<lparr>phase = kNormal, prev_byte = kSE\<rparr>) \<and>
      emitted (body @ [kIAC, kSE]) st = []) \<and>
   (phase st = kNormal \<longrightarrow>
      filter_bytes [kIAC, kWILL, kOptSGA] st = ([NUL, NUL, NUL], st) \<and>
      emitted [kIAC, kWILL, kOptSGA] st = [] \<and>
      filter_bytes [kIAC, kIAC] st = ([NUL, CHR 0xFF], st) \<and>
      emitted [kIAC, kIAC] st = [CHR 0xFF] \<and>
      (\<not> has_iac_se (body @ [kIAC]) \<longrightarrow>
         filter_bytes ([kIAC, kSB] @ body @ [kIAC, kSE]) st =
           (replicate (length body + 4) NUL, \<lparr>phase = kNormal, prev_byte = kSE\<rparr>) \<and>
         emitted ([kIAC, kSB] @ body @ [kIAC, kSE]) st = [])) \<and>
   kIAC = 255 \<and> kWILL = 251 \<and> kWONT = 252 \<and> kDO = 253 \<and> kDONT = 254 \<and> kSB = 250 \<and>
   kSE = 240 \<and> kOptSGA = 3"
proof -
  have codes: "kIAC = 255 \<and> kWILL = 251 \<and> kWONT = 252 \<and> kDO = 253 \<and> kDONT = 254 \<and>
      kSB = 250 \<and> kSE = 240 \<and> kOptSGA = 3"
    by (simp add: kIAC_def kWILL_def kWONT_def kDO_def kDONT_def kSB_def kSE_def kOptSGA_def)
  have ff: "CHR 0xFF \<noteq> NUL"
    by (simp add: NUL_def)
  have iac0: "(0 :: 8 word) \<noteq> kIAC"
    by (simp add: kIAC_def)
  have normal: "phase st = kNormal \<longrightarrow>
      FilterIac kIAC st = (NUL, st\<lparr>phase := kIac\<rparr>) \<and> emitted [kIAC] st = [] \<and>
      FilterIac 0 st = (NUL, st) \<and> emitted [0] st = [] \<and>
      (b \<noteq> kIAC \<and> b \<noteq> 0 \<longrightarrow>
         FilterIac b st = (to_char b, st) \<and> to_char b \<noteq> NUL \<and> emitted [b] st = [to_char b])"
  proof (intro impI conjI)
    assume p: "phase st = kNormal"
    show i: "FilterIac kIAC st = (NUL, st\<lparr>phase := kIac\<rparr>)"
      using p by (simp add: FilterIac_def)
    show "emitted [kIAC] st = []"
      by (simp add: emitted_single i)
    show z: "FilterIac 0 st = (NUL, st)"
      using p iac0 by (simp add: FilterIac_def to_char_0)
    show "emitted [0] st = []"
      by (simp add: emitted_single z)
    assume nb: "b \<noteq> kIAC \<and> b \<noteq> 0"
    show e: "FilterIac b st = (to_char b, st)"
      using p nb by (simp add: FilterIac_def)
    show n: "to_char b \<noteq> NUL"
      using nb by (simp add: to_char_eq_NUL)
    show "emitted [b] st = [to_char b]"
      using n by (simp add: emitted_single e)
  qed
  have sawiac: "phase st = kIac \<longrightarrow>
      FilterIac kIAC st = (CHR 0xFF, st\<lparr>phase := kNormal\<rparr>) \<and>
      emitted [kIAC] st = [CHR 0xFF] \<and>
      (kWILL \<le> b \<and> b \<le> kDONT \<longrightarrow> FilterIac b st = (NUL, st\<lparr>phase := kNego\<rparr>)) \<and>
      FilterIac kSB st = (NUL, st\<lparr>phase := kSub, prev_byte := 0\<rparr>) \<and>
      (b \<noteq> kIAC \<and> \<not> (kWILL \<le> b \<and> b \<le> kDONT) \<and> b \<noteq> kSB \<longrightarrow>
         FilterIac b st = (NUL, st\<lparr>phase := kNormal\<rparr>)) \<and>
      (b \<noteq> kIAC \<longrightarrow> emitted [b] st = [])"
  proof (intro impI conjI)
    assume p: "phase st = kIac"
    show i: "FilterIac kIAC st = (CHR 0xFF, st\<lparr>phase := kNormal\<rparr>)"
      using p by (simp add: FilterIac_def to_char_IAC)
    show "emitted [kIAC] st = [CHR 0xFF]"
      using ff by (simp add: emitted_single i)
    show "FilterIac kSB st = (NUL, st\<lparr>phase := kSub, prev_byte := 0\<rparr>)"
      using p by (simp add: FilterIac_def kIAC_def kWILL_def kDONT_def kSB_def)
    show "FilterIac b st = (NUL, st\<lparr>phase := kNego\<rparr>)" if "kWILL \<le> b \<and> b \<le> kDONT"
      using p that kWILL_order [OF that] by (simp add: FilterIac_def)
    show "FilterIac b st = (NUL, st\<lparr>phase := kNormal\<rparr>)"
      if "b \<noteq> kIAC \<and> \<not> (kWILL \<le> b \<and> b \<le> kDONT) \<and> b \<noteq> kSB"
      using p that by (auto simp add: FilterIac_def kSB_def kWILL_def)
    show "emitted [b] st = []" if "b \<noteq> kIAC"
    proof -
      have "fst (FilterIac b st) = NUL"
        using p that by (simp add: FilterIac_def)
      then show ?thesis
        by (simp add: emitted_single)
    qed
  qed
  have nego: "phase st = kNego \<longrightarrow>
      FilterIac b st = (NUL, st\<lparr>phase := kNormal\<rparr>) \<and> emitted [b] st = []"
  proof (intro impI conjI)
    assume p: "phase st = kNego"
    show e: "FilterIac b st = (NUL, st\<lparr>phase := kNormal\<rparr>)"
      using p by (simp add: FilterIac_def)
    show "emitted [b] st = []"
      by (simp add: emitted_single e)
  qed
  have sub: "phase st = kSub \<longrightarrow>
      FilterIac b st =
        (NUL, \<lparr>phase = (if prev_byte st = kIAC \<and> b = kSE then kNormal else kSub), prev_byte = b\<rparr>) \<and>
      emitted [b] st = []"
  proof (intro impI conjI)
    assume p: "phase st = kSub"
    show e: "FilterIac b st =
        (NUL, \<lparr>phase = (if prev_byte st = kIAC \<and> b = kSE then kNormal else kSub), prev_byte = b\<rparr>)"
      using p by (cases st) (simp add: FilterIac_def)
    show "emitted [b] st = []"
      by (simp add: emitted_single e)
  qed
  have block: "phase st = kSub \<and> \<not> has_iac_se (prev_byte st # body @ [kIAC]) \<longrightarrow>
      filter_bytes (body @ [kIAC]) st =
        (replicate (length body + 1) NUL, \<lparr>phase = kSub, prev_byte = kIAC\<rparr>) \<and>
      filter_bytes (body @ [kIAC, kSE]) st =
        (replicate (length body + 2) NUL, \<lparr>phase = kNormal, prev_byte = kSE\<rparr>) \<and>
      emitted (body @ [kIAC, kSE]) st = []"
  proof (intro impI conjI)
    assume a: "phase st = kSub \<and> \<not> has_iac_se (prev_byte st # body @ [kIAC])"
    show "filter_bytes (body @ [kIAC]) st =
        (replicate (length body + 1) NUL, \<lparr>phase = kSub, prev_byte = kIAC\<rparr>)"
      using a FilterIac_sub_block(1) [of st body] by blast
    show e: "filter_bytes (body @ [kIAC, kSE]) st =
        (replicate (length body + 2) NUL, \<lparr>phase = kNormal, prev_byte = kSE\<rparr>)"
      using a FilterIac_sub_block(2) [of st body] by blast
    show "emitted (body @ [kIAC, kSE]) st = []"
      by (simp only: emitted_def e fst_conv emitted_consumed)
  qed
  have seqs: "phase st = kNormal \<longrightarrow>
      filter_bytes [kIAC, kWILL, kOptSGA] st = ([NUL, NUL, NUL], st) \<and>
      filter_bytes [kIAC, kIAC] st = ([NUL, CHR 0xFF], st)"
    using to_char_IAC by (simp add: FilterIac_def kIAC_def kWILL_def kDONT_def kSB_def)
  have seqs_emitted: "phase st = kNormal \<longrightarrow>
      emitted [kIAC, kWILL, kOptSGA] st = [] \<and> emitted [kIAC, kIAC] st = [CHR 0xFF]"
  proof (intro impI conjI)
    assume p: "phase st = kNormal"
    show "emitted [kIAC, kWILL, kOptSGA] st = []"
      using seqs p by (simp add: emitted_def del: filter_bytes.simps)
    show "emitted [kIAC, kIAC] st = [CHR 0xFF]"
      using seqs p ff by (simp add: emitted_def del: filter_bytes.simps)
  qed
  have whole: "phase st = kNormal \<longrightarrow> \<not> has_iac_se (body @ [kIAC]) \<longrightarrow>
         filter_bytes ([kIAC, kSB] @ body @ [kIAC, kSE]) st =
           (replicate (length body + 4) NUL, \<lparr>phase = kNormal, prev_byte = kSE\<rparr>)"
  proof (intro impI)
    assume n: "phase st = kNormal" and b: "\<not> has_iac_se (body @ [kIAC])"
    let ?st = "st\<lparr>phase := kSub, prev_byte := 0\<rparr>"
    have enter: "filter_bytes [kIAC, kSB] st = ([NUL, NUL], ?st)"
      using n by (simp add: FilterIac_def kIAC_def kWILL_def kDONT_def kSB_def)
    have b': "\<not> has_iac_se (prev_byte ?st # body @ [kIAC])"
      using b by (cases "body @ [kIAC]") (simp_all add: kIAC_def)
    have rest: "filter_bytes (body @ [kIAC, kSE]) ?st =
           (replicate (length body + 2) NUL, \<lparr>phase = kNormal, prev_byte = kSE\<rparr>)"
      by (rule FilterIac_sub_block(2) [OF _ b']) simp
    have rep: "replicate (length body + 4) NUL = [NUL, NUL] @ replicate (length body + 2) NUL"
      by (simp add: numeral_eq_Suc)
    show "filter_bytes ([kIAC, kSB] @ body @ [kIAC, kSE]) st =
           (replicate (length body + 4) NUL, \<lparr>phase = kNormal, prev_byte = kSE\<rparr>)"
      by (simp only: filter_bytes_append [of "[kIAC, kSB]" "body @ [kIAC, kSE]" st] enter rest
          prod.case rep)
  qed
  have whole_emitted: "phase st = kNormal \<longrightarrow> \<not> has_iac_se (body @ [kIAC]) \<longrightarrow>
         emitted ([kIAC, kSB] @ body @ [kIAC, kSE]) st = []"
  proof (intro impI)
    assume n: "phase st = kNormal" and b: "\<not> has_iac_se (body @ [kIAC])"
    from whole n b have e: "filter_bytes ([kIAC, kSB] @ body @ [kIAC, kSE]) st =
           (replicate (length body + 4) NUL, \<lparr>phase = kNormal, prev_byte = kSE\<rparr>)"
      by blast
    show "emitted ([kIAC, kSB] @ body @ [kIAC, kSE]) st = []"
      by (simp only: emitted_def e fst_conv emitted_consumed)
  qed
  from codes normal sawiac nego sub block seqs seqs_emitted whole whole_emitted
  show ?thesis by blast
qed

theorem FilterIac_machine_witness:
  "FilterIac 65 st0 = (CHR ''A'', st0) \<and> emitted [65] st0 = ''A'' \<and>
   FilterIac 0 st0 = (NUL, st0) \<and> emitted [0] st0 = [] \<and>
   FilterIac 255 st0 = (NUL, \<lparr>phase = kIac, prev_byte = 0\<rparr>) \<and>
   FilterIac 255 \<lparr>phase = kIac, prev_byte = 0\<rparr> = (CHR 0xFF, st0) \<and>
   FilterIac 253 \<lparr>phase = kIac, prev_byte = 0\<rparr> = (NUL, \<lparr>phase = kNego, prev_byte = 0\<rparr>) \<and>
   FilterIac 250 \<lparr>phase = kIac, prev_byte = 7\<rparr> = (NUL, \<lparr>phase = kSub, prev_byte = 0\<rparr>) \<and>
   FilterIac 241 \<lparr>phase = kIac, prev_byte = 0\<rparr> = (NUL, st0) \<and>
   emitted [241] \<lparr>phase = kIac, prev_byte = 0\<rparr> = [] \<and>
   FilterIac 3 \<lparr>phase = kNego, prev_byte = 0\<rparr> = (NUL, st0) \<and>
   FilterIac 240 \<lparr>phase = kSub, prev_byte = 255\<rparr> = (NUL, \<lparr>phase = kNormal, prev_byte = 240\<rparr>) \<and>
   FilterIac 240 \<lparr>phase = kSub, prev_byte = 31\<rparr> = (NUL, \<lparr>phase = kSub, prev_byte = 240\<rparr>) \<and>
   filter_bytes [255, 251, 3] st0 = ([NUL, NUL, NUL], st0) \<and>
   emitted [255, 251, 3] st0 = [] \<and>
   filter_bytes [255, 255] st0 = ([NUL, CHR 0xFF], st0) \<and>
   emitted [255, 255] st0 = [CHR 0xFF] \<and>
   filter_bytes [255, 250, 31, 0, 80, 0, 24, 255, 240] st0 =
     (replicate 9 NUL, \<lparr>phase = kNormal, prev_byte = 240\<rparr>) \<and>
   emitted [255, 250, 31, 0, 80, 0, 24, 255, 240] st0 = []"
proof -
  have a: "to_char 65 = CHR ''A''"
    unfolding to_char_def by code_simp
  have b: "\<not> has_iac_se ([31, 0, 80, 0, 24] @ [kIAC])"
    by (simp add: kIAC_def kSE_def)
  note ks = kIAC_def kWILL_def kWONT_def kDO_def kDONT_def kSB_def kSE_def kOptSGA_def
  note n = FilterIac_machine [of st0 65 "[31, 0, 80, 0, 24]"]
  note i1 = FilterIac_machine [of "\<lparr>phase = kIac, prev_byte = 0\<rparr>" 253 "[]"]
  note i2 = FilterIac_machine [of "\<lparr>phase = kIac, prev_byte = 7\<rparr>" 241 "[]"]
  note i3 = FilterIac_machine [of "\<lparr>phase = kIac, prev_byte = 0\<rparr>" 241 "[]"]
  note g = FilterIac_machine [of "\<lparr>phase = kNego, prev_byte = 0\<rparr>" 3 "[]"]
  note s1 = FilterIac_machine [of "\<lparr>phase = kSub, prev_byte = 255\<rparr>" 240 "[]"]
  note s2 = FilterIac_machine [of "\<lparr>phase = kSub, prev_byte = 31\<rparr>" 240 "[]"]
  have "FilterIac 65 st0 = (CHR ''A'', st0)"
    "emitted [65] st0 = ''A''"
    "FilterIac 0 st0 = (NUL, st0)"
    "emitted [0] st0 = []"
    "FilterIac 255 st0 = (NUL, \<lparr>phase = kIac, prev_byte = 0\<rparr>)"
    "filter_bytes [255, 251, 3] st0 = ([NUL, NUL, NUL], st0)"
    "emitted [255, 251, 3] st0 = []"
    "filter_bytes [255, 255] st0 = ([NUL, CHR 0xFF], st0)"
    "emitted [255, 255] st0 = [CHR 0xFF]"
    "filter_bytes [255, 250, 31, 0, 80, 0, 24, 255, 240] st0 =
       (replicate 9 NUL, \<lparr>phase = kNormal, prev_byte = 240\<rparr>)"
    "emitted [255, 250, 31, 0, 80, 0, 24, 255, 240] st0 = []"
    using n a b by (simp_all add: st0_def ks del: filter_bytes.simps)
  moreover have "FilterIac 255 \<lparr>phase = kIac, prev_byte = 0\<rparr> = (CHR 0xFF, st0)"
    "FilterIac 253 \<lparr>phase = kIac, prev_byte = 0\<rparr> = (NUL, \<lparr>phase = kNego, prev_byte = 0\<rparr>)"
    using i1 by (simp_all add: st0_def ks)
  moreover have "FilterIac 250 \<lparr>phase = kIac, prev_byte = 7\<rparr> = (NUL, \<lparr>phase = kSub, prev_byte = 0\<rparr>)"
    using i2 by (simp add: ks)
  moreover have "FilterIac 241 \<lparr>phase = kIac, prev_byte = 0\<rparr> = (NUL, st0)"
    "emitted [241] \<lparr>phase = kIac, prev_byte = 0\<rparr> = []"
    using i3 by (simp_all add: st0_def ks)
  moreover have "FilterIac 3 \<lparr>phase = kNego, prev_byte = 0\<rparr> = (NUL, st0)"
    using g by (simp add: st0_def ks)
  moreover have "FilterIac 240 \<lparr>phase = kSub, prev_byte = 255\<rparr> = (NUL, \<lparr>phase = kNormal, prev_byte = 240\<rparr>)"
    using s1 by (simp add: ks)
  moreover have "FilterIac 240 \<lparr>phase = kSub, prev_byte = 31\<rparr> = (NUL, \<lparr>phase = kSub, prev_byte = 240\<rparr>)"
    using s2 by (simp add: ks)
  ultimately show ?thesis by blast
qed

text \<open>
  In Normal not every byte other than IAC is emitted: the byte 0 is returned as the
  consumed mark, so the filter gives a caller no way to tell it from a consumed byte. Three
  bytes 0 return what IAC WILL SGA returns, and of the bytes 65, 0, 66 only the two letters
  are emitted.
\<close>

theorem FilterIac_NUL_counterexample:
  "phase st0 = kNormal \<and> (0 :: 8 word) \<noteq> kIAC \<and>
   FilterIac 0 st0 = (NUL, st0) \<and>
   emitted [0] st0 = [] \<and>
   emitted [65, 0, 66] st0 = ''AB'' \<and>
   filter_bytes [0, 0, 0] st0 = filter_bytes [kIAC, kWILL, kOptSGA] st0"
  by code_simp

subsection \<open>History\<close>

text \<open>
  \<^verbatim>\<open>PushHistory(const char* cmd)\<close>; \<open>cmd\<close> is \<open>None\<close> for \<^verbatim>\<open>nullptr\<close> and otherwise the
  memory it points to, read as a C string. The index arithmetic is \<^verbatim>\<open>uint32_t\<close>; its
  wrap-around at \<open>2^32\<close> is written out where a subtraction can pass zero.
\<close>

definition PushHistory ::
  "char list option \<Rightarrow> ('c, 'w) TelnetSession \<Rightarrow> ('c, 'w) TelnetSession" where
  "PushHistory cmd s =
     (case cmd of
        None \<Rightarrow> s
      | Some m \<Rightarrow>
          if peek m 0 = NUL then s
          else if history_count s > 0 \<and>
                  c_str (history s ! ((history_write s + kHistorySize - 1) mod kHistorySize)) = c_str m
          then s
          else
            s\<lparr>history := (history s)
                   [history_write s :=
                      (c_strncpy (history s ! history_write s) m (kMaxCmdLen - 1))
                        [kMaxCmdLen - 1 := NUL]],
              history_write := (history_write s + 1) mod kHistorySize,
              history_count := (if history_count s < kHistorySize then history_count s + 1
                                else history_count s)\<rparr>)"

definition GetHistory :: "int \<Rightarrow> ('c, 'w) TelnetSession \<Rightarrow> char list option" where
  "GetHistory index s =
     (if index < 0 \<or> index \<ge> int (history_count s) then None
      else Some (history s !
             nat (((int (history_write s) + int kHistorySize - 1 - index) mod 2 ^ 32)
                    mod int kHistorySize)))"

subsection \<open>Line editing\<close>

text \<open>The erase sequence \<^verbatim>\<open>"\b \b"\<close>.\<close>

definition erase_seq :: string where
  "erase_seq = [CHR 0x08, CHR '' '', CHR 0x08]"

text \<open>\<^verbatim>\<open>while (cmd_len_ > 0) { --cmd_len_; Send("\b \b", 3); }\<close>\<close>

function erase_line :: "('c, 'w) TelnetSession \<Rightarrow> ('c, 'w) TelnetSession" where
  "erase_line s =
     (if cmd_len s > 0 then erase_line (Send (Some erase_seq) 3 (s\<lparr>cmd_len := cmd_len s - 1\<rparr>))
      else s)"
  by pat_completeness auto
termination
  by (relation "measure cmd_len") (auto simp: Send_def)

declare erase_line.simps [simp del]

definition ReplaceLineWith ::
  "char list option \<Rightarrow> ('c, 'w) TelnetSession \<Rightarrow> ('c, 'w) TelnetSession" where
  "ReplaceLineWith text_ptr s =
     (let s1 = erase_line s
      in case text_ptr of
           None \<Rightarrow> s1
         | Some t \<Rightarrow>
             (let len = (if length (c_str t) \<ge> kMaxCmdLen then kMaxCmdLen - 1 else length (c_str t));
                  s2 = s1\<lparr>cmd_buf := (take len t @ drop len (cmd_buf s1))[len := NUL],
                          cmd_len := len\<rparr>
              in Send (Some (cmd_buf s2)) (cmd_len s2) s2))"

definition HandleArrow :: "char \<Rightarrow> ('c, 'w) TelnetSession \<Rightarrow> ('c, 'w) TelnetSession" where
  "HandleArrow c s =
     (if arrow s = kEsc then s\<lparr>arrow := (if c = CHR ''['' then kBracket else kNone)\<rparr>
      else
        (let s1 = s\<lparr>arrow := kNone\<rparr>
         in if c = CHR ''A'' then
              (let next = history_nav s1 + 1
               in if next < int (history_count s1)
                  then (let s2 = s1\<lparr>history_nav := next\<rparr>
                        in ReplaceLineWith (GetHistory (history_nav s2) s2) s2)
                  else s1)
            else if c = CHR ''B'' then
              (if history_nav s1 > 0
               then (let s2 = s1\<lparr>history_nav := history_nav s1 - 1\<rparr>
                     in ReplaceLineWith (GetHistory (history_nav s2) s2) s2)
               else if history_nav s1 = 0
               then ReplaceLineWith (Some [NUL]) (s1\<lparr>history_nav := - 1\<rparr>)
               else s1)
            else s1))"

subsection \<open>Authentication\<close>

definition login_ok :: string where
  "login_ok = ''Login OK.'' @ CRLF"

definition login_failed :: string where
  "login_failed = ''Login failed.'' @ CRLF"

definition CheckAuth :: "('c, 'w) TelnetSession \<Rightarrow> ('c, 'w) TelnetSession" where
  "CheckAuth s =
     (if auth s = kNeedUser then
        s\<lparr>user_buf := (c_strncpy (user_buf s) (cmd_buf s) (64 - 1))[64 - 1 := NUL],
          auth := kNeedPass\<rparr>
      else if auth s = kNeedPass then
        (if Some (c_str (user_buf s)) = username (config s) \<and>
            Some (c_str (cmd_buf s)) = password (config s)
         then SendStr (Some login_ok) (s\<lparr>auth := kAuthorized\<rparr>)
         else (SendStr (Some login_failed) s)
                \<lparr>auth := kNeedUser, user_buf := c_memset0 (user_buf s) 64\<rparr>)
      else s)"

subsection \<open>Command execution\<close>

text \<open>\<^verbatim>\<open>SessionOutput\<close> passes each output call of Execute to Send. When the length passed
  exceeds the text in the format buffer, the bytes the C code reads past the terminator are
  not modelled: only the text is recorded as sent.\<close>

definition SessionOutput :: "out_call \<Rightarrow> ('c, 'w) TelnetSession \<Rightarrow> ('c, 'w) TelnetSession" where
  "SessionOutput call s = Send (Some (fst call)) (snd call) s"

definition ExecuteCommand :: "('c, 'w) TelnetSession \<Rightarrow> ('c, 'w) TelnetSession" where
  "ExecuteCommand s =
     (let s1 = PushHistory (Some (cmd_buf s)) s
      in if c_str (cmd_buf s1) = ''exit'' \<or> c_str (cmd_buf s1) = ''quit''
         then Stop (SendStr (Some (''Bye.'' @ CRLF)) s1)
         else
           (let exec_buf = (c_strncpy (replicate kMaxCmdLen NUL) (cmd_buf s1) (kMaxCmdLen - 1))
                             [kMaxCmdLen - 1 := NUL]
            in case Execute (registry s1) (Some exec_buf) True (world s1) of
                 (rc, calls, w') \<Rightarrow> fold SessionOutput calls (s1\<lparr>world := w'\<rparr>)))"

subsection \<open>ProcessChar and the read loop\<close>

definition ProcessChar :: "char \<Rightarrow> ('c, 'w) TelnetSession \<Rightarrow> ('c, 'w) TelnetSession" where
  "ProcessChar c s =
     (if arrow s \<noteq> kNone then HandleArrow c s
      else if c = CHR 0x1B then s\<lparr>arrow := kEsc\<rparr>
      else if c = CHR 0x13 then s\<lparr>output_paused := True\<rparr>
      else if c = CHR 0x11 then s\<lparr>output_paused := False\<rparr>
      else if c = CHR 0x08 \<or> c = CHR 0x7F then
        (if cmd_len s > 0 then
           (let s1 = s\<lparr>cmd_len := cmd_len s - 1\<rparr>;
                s2 = s1\<lparr>cmd_buf := (cmd_buf s1)[cmd_len s1 := NUL]\<rparr>
            in if auth s2 \<noteq> kNeedPass then Send (Some erase_seq) 3 s2 else s2)
         else s)
      else if c = CHR 0x0D then
        (let s1 = Send (Some CRLF) 2 s;
             s2 = s1\<lparr>cmd_buf := (cmd_buf s1)[cmd_len s1 := NUL]\<rparr>;
             s3 = (if auth s2 \<noteq> kAuthorized then CheckAuth s2
                   else if cmd_len s2 > 0 then ExecuteCommand s2
                   else s2);
             s4 = s3\<lparr>cmd_len := 0, cmd_buf := c_memset0 (cmd_buf s3) kMaxCmdLen,
                     history_nav := - 1\<rparr>
         in ShowPrompt s4)
      else if c = CHR 0x0A then s
      else if cmd_len s < kMaxCmdLen - 1 then
        (let s1 = s\<lparr>cmd_buf := (cmd_buf s)[cmd_len s := c], cmd_len := cmd_len s + 1\<rparr>;
             s2 = s1\<lparr>cmd_buf := (cmd_buf s1)[cmd_len s1 := NUL]\<rparr>
         in if auth s2 = kNeedPass then Send (Some ''*'') 1 s2 else Send (Some [c]) 1 s2)
      else s)"

text \<open>One turn of the read loop of Run, for a byte that \<^verbatim>\<open>recv\<close> delivered.\<close>

definition run_byte :: "8 word \<Rightarrow> ('c, 'w) TelnetSession \<Rightarrow> ('c, 'w) TelnetSession" where
  "run_byte byte s =
     (case FilterIac byte (iac s) of
        (c, st) \<Rightarrow>
          (let s1 = s\<lparr>iac := st\<rparr>
           in if c = NUL then s1 else ProcessChar c s1))"

text \<open>The read loop on the bytes that \<^verbatim>\<open>recv\<close> delivers before it fails or the peer
  closes; it ends early when \<open>running\<close> is cleared.\<close>

fun run_loop :: "8 word list \<Rightarrow> ('c, 'w) TelnetSession \<Rightarrow> ('c, 'w) TelnetSession" where
  "run_loop [] s = s"
| "run_loop (b # bs) s = (if running s then run_loop bs (run_byte b s) else s)"

definition Run :: "8 word list \<Rightarrow> ('c, 'w) TelnetSession \<Rightarrow> ('c, 'w) TelnetSession" where
  "Run bytes s =
     (if sock_fd s < 0 then s
      else
        (let s1 = SendIac kDO kOptSGA s;
             s2 = SendIac kDO kOptNAWS s1;
             s3 = SendIac kWILL kOptEcho s2;
             s4 = SendIac kWILL kOptSGA s3;
             s5 = SendStr (banner (config s4)) s4;
             s6 = ShowPrompt s5
         in Close (run_loop bytes s6)))"

subsection \<open>Sessions of the examples\<close>

text \<open>A session on socket 3 after Init, with credentials configured and without.\<close>

definition demo_config :: SessionConfig where
  "demo_config = \<lparr>username = Some ''admin'', password = Some ''secret'',
                   prompt = Some ''telsh> '', banner = None\<rparr>"

definition demo_session :: "(unit, nat) TelnetSession" where
  "demo_session = Init 3 test_registry demo_config (new_session test_registry 0)"

definition open_session :: "(unit, nat) TelnetSession" where
  "open_session =
     Init 3 test_registry \<lparr>username = None, password = None, prompt = Some ''telsh> '', banner = None\<rparr>
       (new_session test_registry 0)"

text \<open>The session with \<open>admin\<close> typed at the user name prompt, and with \<open>secret\<close> and
  with \<open>secre\<close> typed at the password prompt after it.\<close>

definition typed_user :: "(unit, nat) TelnetSession" where
  "typed_user = demo_session\<lparr>cmd_buf := ''admin'' @ NUL # replicate 250 NUL, cmd_len := 5\<rparr>"

definition typed_pass :: "(unit, nat) TelnetSession" where
  "typed_pass =
     demo_session\<lparr>auth := kNeedPass, user_buf := ''admin'' @ NUL # replicate 58 NUL,
       cmd_buf := ''secret'' @ NUL # replicate 249 NUL, cmd_len := 6\<rparr>"

definition typed_wrong :: "(unit, nat) TelnetSession" where
  "typed_wrong = typed_pass\<lparr>cmd_buf := ''secre'' @ NUL # replicate 250 NUL, cmd_len := 5\<rparr>"

section \<open>Properties of the session\<close>

text \<open>
  Claim C10. A byte 0 received in the Normal state of the IAC decoder is dropped: FilterIac
  returns it as it is, the character \<open>NUL\<close>, which the read loop takes for the consumed mark,
  so the turn of the loop leaves the whole session (line buffer, authentication state,
  history and pause flag included) as it was. Any other byte but IAC reaches ProcessChar.
\<close>

theorem NUL_byte_discarded:
  "(phase (iac s) = kNormal \<longrightarrow>
      FilterIac 0 (iac s) = (to_char 0, iac s) \<and> to_char 0 = NUL \<and> run_byte 0 s = s) \<and>
   (phase (iac s) = kNormal \<and> b \<noteq> 0 \<and> b \<noteq> kIAC \<longrightarrow>
      run_byte b s = ProcessChar (to_char b) s)"
proof (intro conjI impI)
  assume n: "phase (iac s) = kNormal"
  show f: "FilterIac 0 (iac s) = (to_char 0, iac s)"
    using n by (simp add: FilterIac_def kIAC_def)
  show "to_char 0 = NUL"
    by (rule to_char_0)
  show "run_byte 0 s = s"
    by (simp add: run_byte_def f to_char_0)
next
  assume a: "phase (iac s) = kNormal \<and> b \<noteq> 0 \<and> b \<noteq> kIAC"
  then have "FilterIac b (iac s) = (to_char b, iac s)"
    by (simp add: FilterIac_def)
  moreover have "to_char b \<noteq> NUL"
    using a by (simp add: to_char_eq_NUL)
  ultimately show "run_byte b s = ProcessChar (to_char b) s"
    by (simp add: run_byte_def)
qed

theorem NUL_byte_discarded_witness:
  "phase (iac open_session) = kNormal \<and>
   run_byte 0 open_session = open_session \<and>
   cmd_len (run_byte 0 open_session) = 0 \<and>
   run_byte 97 open_session = ProcessChar (CHR ''a'') open_session \<and>
   cmd_len (run_byte 97 open_session) = 1"
proof -
  have n: "phase (iac open_session) = kNormal"
    by (simp add: open_session_def Init_def)
  have c: "to_char 97 = CHR ''a''"
    unfolding to_char_def by code_simp
  have z: "run_byte 0 open_session = open_session"
    using NUL_byte_discarded [of open_session 97] n by simp
  have a: "run_byte 97 open_session = ProcessChar (CHR ''a'') open_session"
    using NUL_byte_discarded [of open_session 97] n c by (simp add: kIAC_def)
  have "cmd_len open_session = 0"
    by (simp add: open_session_def Init_def)
  moreover have "cmd_len (ProcessChar (CHR ''a'') open_session) = 1"
    by (simp add: open_session_def Init_def ProcessChar_def Send_def kMaxCmdLen_def Let_def)
  ultimately show ?thesis
    using n z a by simp
qed

lemma c_str_no_NUL: "NUL \<notin> set (c_str m)"
  by (induction m) (auto simp: c_str_def)

lemma c_str_padded: "NUL \<notin> set x \<Longrightarrow> c_str (x @ replicate n NUL @ [NUL]) = x"
  by (simp add: replicate_append_same c_str_append_NUL)

lemma user_buf_copy:
  assumes "length ub = 64"
  shows "c_str ((c_strncpy ub m (64 - 1))[64 - 1 := NUL]) = take 63 (c_str m)"
    and "length ((c_strncpy ub m (64 - 1))[64 - 1 := NUL]) = 64"
proof -
  let ?x = "take 63 (c_str m)"
  have len: "length (?x @ replicate (63 - length (c_str m)) NUL) = 63"
    by simp
  have d: "drop 63 ub = [ub ! 63]"
    using assms Cons_nth_drop_Suc [of 63 ub] by simp
  have "(c_strncpy ub m (64 - 1))[64 - 1 := NUL] =
        ((?x @ replicate (63 - length (c_str m)) NUL) @ [ub ! 63])[63 := NUL]"
    by (simp add: c_strncpy_def d)
  also have "\<dots> = (?x @ replicate (63 - length (c_str m)) NUL) @ [NUL]"
    using len by (simp only: list_update_append) simp
  finally have eq: "(c_strncpy ub m (64 - 1))[64 - 1 := NUL] =
      ?x @ replicate (63 - length (c_str m)) NUL @ [NUL]"
    by simp
  have "NUL \<notin> set ?x"
    using c_str_no_NUL [of m] by (auto dest: in_set_takeD)
  then have "c_str (?x @ replicate (63 - length (c_str m)) NUL @ [NUL]) = ?x"
    by (rule c_str_padded)
  then show "c_str ((c_strncpy ub m (64 - 1))[64 - 1 := NUL]) = take 63 (c_str m)"
    by (simp only: eq)
  show "length ((c_strncpy ub m (64 - 1))[64 - 1 := NUL]) = 64"
    using eq len by simp
qed

lemma sent_SendStr:
  "sock_fd s \<ge> 0 \<Longrightarrow> \<not> output_paused s \<Longrightarrow> sent (SendStr (Some m) s) = sent s @ m"
  by (simp add: SendStr_def Send_def)

text \<open>
  Claim C4. Init starts the authentication in NeedUser when a user name and a password are
  configured, and in Authorized otherwise. In NeedUser, CheckAuth copies the line (its first
  63 characters) into the user name buffer and moves to NeedPass, changing nothing else; the
  outcome does not depend on the configured credentials. In NeedPass, it moves to Authorized
  and sends the success message exactly when the stored user name is the configured one and
  the line is the configured password; otherwise it sends the failure message, moves to
  NeedUser and clears the user name buffer to what Init sets. Sending a message puts it on the
  socket unless output is paused or the socket is closed.
\<close>

theorem auth_machine:
  "auth (Init fd reg cfg s0) =
     (if username cfg \<noteq> None \<and> password cfg \<noteq> None then kNeedUser else kAuthorized) \<and>
   (length (user_buf s) = 64 \<and> auth s = kNeedUser \<longrightarrow>
      auth (CheckAuth s) = kNeedPass \<and>
      c_str (user_buf (CheckAuth s)) = take 63 (c_str (cmd_buf s)) \<and>
      CheckAuth s = s\<lparr>user_buf := user_buf (CheckAuth s), auth := kNeedPass\<rparr> \<and>
      CheckAuth (s\<lparr>config := cfg'\<rparr>) = (CheckAuth s)\<lparr>config := cfg'\<rparr>) \<and>
   (length (user_buf s) = 64 \<and> auth s = kNeedPass \<and>
    username (config s) = Some u \<and> password (config s) = Some p \<longrightarrow>
      (auth (CheckAuth s) = kAuthorized \<longleftrightarrow> c_str (user_buf s) = u \<and> c_str (cmd_buf s) = p) \<and>
      (c_str (user_buf s) = u \<and> c_str (cmd_buf s) = p \<longrightarrow>
         CheckAuth s = SendStr (Some login_ok) (s\<lparr>auth := kAuthorized\<rparr>)) \<and>
      (\<not> (c_str (user_buf s) = u \<and> c_str (cmd_buf s) = p) \<longrightarrow>
         CheckAuth s =
           (SendStr (Some login_failed) s)\<lparr>auth := kNeedUser, user_buf := replicate 64 NUL\<rparr> \<and>
         user_buf (CheckAuth s) = user_buf (Init fd reg cfg s))) \<and>
   (sock_fd s \<ge> 0 \<and> \<not> output_paused s \<longrightarrow> sent (SendStr (Some m) s) = sent s @ m)"
proof (intro conjI impI)
  show "auth (Init fd reg cfg s0) =
     (if username cfg \<noteq> None \<and> password cfg \<noteq> None then kNeedUser else kAuthorized)"
    by (simp add: Init_def)
next
  assume a: "length (user_buf s) = 64 \<and> auth s = kNeedUser"
  then show "auth (CheckAuth s) = kNeedPass"
    by (simp add: CheckAuth_def)
  from a have ub: "user_buf (CheckAuth s) = (c_strncpy (user_buf s) (cmd_buf s) (64 - 1))[64 - 1 := NUL]"
    by (simp add: CheckAuth_def)
  show "c_str (user_buf (CheckAuth s)) = take 63 (c_str (cmd_buf s))"
    using a by (simp only: ub user_buf_copy)
  show "CheckAuth s = s\<lparr>user_buf := user_buf (CheckAuth s), auth := kNeedPass\<rparr>"
    using a by (simp add: CheckAuth_def)
  show "CheckAuth (s\<lparr>config := cfg'\<rparr>) = (CheckAuth s)\<lparr>config := cfg'\<rparr>"
    using a by (simp add: CheckAuth_def)
next
  assume a: "length (user_buf s) = 64 \<and> auth s = kNeedPass \<and>
    username (config s) = Some u \<and> password (config s) = Some p"
  have m0: "c_memset0 (user_buf s) 64 = replicate 64 NUL"
    using a by (simp add: c_memset0_def)
  show "auth (CheckAuth s) = kAuthorized \<longleftrightarrow> c_str (user_buf s) = u \<and> c_str (cmd_buf s) = p"
    using a by (auto simp add: CheckAuth_def SendStr_def Send_def)
  show "CheckAuth s = SendStr (Some login_ok) (s\<lparr>auth := kAuthorized\<rparr>)"
    if "c_str (user_buf s) = u \<and> c_str (cmd_buf s) = p"
    using a that by (simp add: CheckAuth_def)
  show "CheckAuth s =
           (SendStr (Some login_failed) s)\<lparr>auth := kNeedUser, user_buf := replicate 64 NUL\<rparr>"
    if "\<not> (c_str (user_buf s) = u \<and> c_str (cmd_buf s) = p)"
    using a that by (auto simp add: CheckAuth_def m0)
  show "user_buf (CheckAuth s) = user_buf (Init fd reg cfg s)"
    if "\<not> (c_str (user_buf s) = u \<and> c_str (cmd_buf s) = p)"
    using a that by (auto simp add: CheckAuth_def Init_def)
next
  assume "sock_fd s \<ge> 0 \<and> \<not> output_paused s"
  then show "sent (SendStr (Some m) s) = sent s @ m"
    by (simp add: sent_SendStr)
qed


theorem auth_machine_witness:
  "auth demo_session = kNeedUser \<and> auth open_session = kAuthorized \<and>
   auth (CheckAuth typed_user) = kNeedPass \<and>
   c_str (user_buf (CheckAuth typed_user)) = ''admin'' \<and>
   auth (CheckAuth typed_pass) = kAuthorized \<and>
   sent (CheckAuth typed_pass) = sent typed_pass @ login_ok \<and>
   auth (CheckAuth typed_wrong) = kNeedUser \<and>
   c_str (user_buf (CheckAuth typed_wrong)) = [] \<and>
   sent (CheckAuth typed_wrong) = sent typed_wrong @ login_failed"
proof -
  have i0: "auth demo_session = kNeedUser" "auth open_session = kAuthorized"
    using auth_machine [of 3 test_registry demo_config "new_session test_registry 0"]
      auth_machine [of 3 test_registry
        "\<lparr>username = None, password = None, prompt = Some ''telsh> '', banner = None\<rparr>"
        "new_session test_registry 0"]
    by (simp_all add: demo_session_def open_session_def demo_config_def)
  note defs = typed_user_def typed_pass_def typed_wrong_def demo_session_def demo_config_def
    Init_def new_session_def c_memset0_def c_str_def NUL_def
  have u: "length (user_buf typed_user) = 64 \<and> auth typed_user = kNeedUser"
    "c_str (cmd_buf typed_user) = ''admin''"
    by (simp_all add: defs)
  note iu = auth_machine [of 3 test_registry demo_config typed_user typed_user demo_config
      "''admin''" "''secret''" "[]", THEN conjunct2, THEN conjunct1, THEN mp, OF u(1)]
  have r1: "auth (CheckAuth typed_user) = kNeedPass"
    "c_str (user_buf (CheckAuth typed_user)) = ''admin''"
    using iu u(2) by simp_all
  have p: "length (user_buf typed_pass) = 64 \<and> auth typed_pass = kNeedPass \<and>
      username (config typed_pass) = Some ''admin'' \<and> password (config typed_pass) = Some ''secret''"
    "c_str (user_buf typed_pass) = ''admin'' \<and> c_str (cmd_buf typed_pass) = ''secret''"
    "sock_fd typed_pass \<ge> 0 \<and> \<not> output_paused typed_pass"
    by (simp_all add: defs)
  note inst_p = auth_machine [of 3 test_registry demo_config typed_pass typed_pass demo_config
      "''admin''" "''secret''" login_ok]
  note ip = inst_p [THEN conjunct2, THEN conjunct2, THEN conjunct1, THEN mp, OF p(1)]
  have r2: "auth (CheckAuth typed_pass) = kAuthorized"
    using ip p(2) by blast
  have "CheckAuth typed_pass = SendStr (Some login_ok) (typed_pass\<lparr>auth := kAuthorized\<rparr>)"
    using ip p(2) by blast
  then have r3: "sent (CheckAuth typed_pass) = sent typed_pass @ login_ok"
    using p(3) by (simp add: SendStr_def Send_def)
  have w: "length (user_buf typed_wrong) = 64 \<and> auth typed_wrong = kNeedPass \<and>
      username (config typed_wrong) = Some ''admin'' \<and> password (config typed_wrong) = Some ''secret''"
    "\<not> (c_str (user_buf typed_wrong) = ''admin'' \<and> c_str (cmd_buf typed_wrong) = ''secret'')"
    "sock_fd typed_wrong \<ge> 0 \<and> \<not> output_paused typed_wrong"
    by (simp_all add: defs)
  note inst_w = auth_machine [of 3 test_registry demo_config typed_wrong typed_wrong demo_config
      "''admin''" "''secret''" login_failed]
  note iw = inst_w [THEN conjunct2, THEN conjunct2, THEN conjunct1, THEN mp, OF w(1)]
  have fail: "CheckAuth typed_wrong =
      (SendStr (Some login_failed) typed_wrong)\<lparr>auth := kNeedUser, user_buf := replicate 64 NUL\<rparr>"
    using iw w(2) by blast
  have r4: "auth (CheckAuth typed_wrong) = kNeedUser"
    "c_str (user_buf (CheckAuth typed_wrong)) = []"
    by (simp_all add: fail c_str_def SendStr_def Send_def)
  have r5: "sent (CheckAuth typed_wrong) = sent typed_wrong @ login_failed"
    using w(3) inst_w [THEN conjunct2, THEN conjunct2, THEN conjunct2] by (simp add: fail)
  from i0 r1 r2 r3 r4 r5 show ?thesis by simp
qed

subsection \<open>The line buffer\<close>

text \<open>A character that ProcessChar treats as text: none of ESC, Ctrl-S, Ctrl-Q, backspace,
  DEL, CR and LF.\<close>

definition is_plain :: "char \<Rightarrow> bool" where
  "is_plain c \<longleftrightarrow>
     c \<noteq> CHR 0x1B \<and> c \<noteq> CHR 0x13 \<and> c \<noteq> CHR 0x11 \<and> c \<noteq> CHR 0x08 \<and> c \<noteq> CHR 0x7F \<and>
     c \<noteq> CHR 0x0D \<and> c \<noteq> CHR 0x0A"

text \<open>The invariant of the line editor: the buffer has its \<open>kMaxCmdLen\<close> bytes, holds at
  most \<open>kMaxCmdLen - 1\<close> characters and a terminator at its length, and the history cursor
  is \<open>-1\<close> or the index of a stored entry.\<close>

definition line_inv :: "('c, 'w) TelnetSession \<Rightarrow> bool" where
  "line_inv s \<longleftrightarrow>
     length (cmd_buf s) = kMaxCmdLen \<and> cmd_len s \<le> kMaxCmdLen - 1 \<and>
     cmd_buf s ! cmd_len s = NUL \<and>
     - 1 \<le> history_nav s \<and> history_nav s < int (history_count s)"

lemma Send_frame: "\<exists>x. Send d n s = s\<lparr>sent := x\<rparr>"
  by (cases d) (auto simp: Send_def intro: exI [of _ "sent s"])

lemma SendStr_frame: "\<exists>x. SendStr m s = s\<lparr>sent := x\<rparr>"
  using Send_frame by (cases m) (auto simp: SendStr_def intro: exI [of _ "sent s"])

lemma ShowPrompt_frame: "\<exists>x. ShowPrompt s = s\<lparr>sent := x\<rparr>"
  using SendStr_frame by (cases "auth s") (auto simp: ShowPrompt_def)

lemma outputs_frame: "\<exists>x. fold SessionOutput calls s = s\<lparr>sent := x\<rparr>"
proof (induction calls arbitrary: s)
  case Nil
  show ?case by (auto intro: exI [of _ "sent s"])
next
  case (Cons a calls)
  obtain x where x: "SessionOutput a s = s\<lparr>sent := x\<rparr>"
    unfolding SessionOutput_def using Send_frame [of "Some (fst a)" "snd a" s] by blast
  obtain y where "fold SessionOutput calls (s\<lparr>sent := x\<rparr>) = s\<lparr>sent := x\<rparr>\<lparr>sent := y\<rparr>"
    using Cons.IH by blast
  then show ?case by (auto simp: x)
qed

lemma line_inv_sent [simp]: "line_inv (s\<lparr>sent := x\<rparr>) = line_inv s"
  by (simp add: line_inv_def)

lemma line_inv_Send [simp]: "line_inv (Send d n s) = line_inv s"
  using Send_frame [of d n s] by auto

lemma line_inv_ShowPrompt [simp]: "line_inv (ShowPrompt s) = line_inv s"
  using ShowPrompt_frame [of s] by auto

lemma PushHistory_cmd_buf [simp]: "cmd_buf (PushHistory m s) = cmd_buf s"
  by (simp add: PushHistory_def split: option.splits)

lemma CheckAuth_cmd_buf [simp]: "cmd_buf (CheckAuth s) = cmd_buf s"
  using SendStr_frame [of "Some login_ok" "s\<lparr>auth := kAuthorized\<rparr>"]
    SendStr_frame [of "Some login_failed" s]
  by (auto simp: CheckAuth_def)

lemma Send_cmd_buf [simp]: "cmd_buf (Send d n s) = cmd_buf s"
  using Send_frame [of d n s] by auto

lemma SendStr_cmd_buf [simp]: "cmd_buf (SendStr m s) = cmd_buf s"
  using SendStr_frame [of m s] by auto

lemma outputs_cmd_buf [simp]: "cmd_buf (fold SessionOutput calls s) = cmd_buf s"
  using outputs_frame [of calls s] by auto

lemma ExecuteCommand_cmd_buf [simp]: "cmd_buf (ExecuteCommand s) = cmd_buf s"
  by (simp add: ExecuteCommand_def Let_def Stop_def split: prod.splits)

lemma erase_line_frame: "\<exists>x. erase_line s = s\<lparr>cmd_len := 0, sent := x\<rparr>"
proof (induction s rule: erase_line.induct)
  case (1 s)
  show ?case
  proof (cases "cmd_len s > 0")
    case True
    let ?s = "Send (Some erase_seq) 3 (s\<lparr>cmd_len := cmd_len s - 1\<rparr>)"
    obtain y where y: "?s = s\<lparr>cmd_len := cmd_len s - 1\<rparr>\<lparr>sent := y\<rparr>"
      using Send_frame by blast
    obtain x where "erase_line ?s = ?s\<lparr>cmd_len := 0, sent := x\<rparr>"
      using "1.IH" [OF True] by blast
    then have "erase_line s = s\<lparr>cmd_len := 0, sent := x\<rparr>"
      using True y by (subst erase_line.simps) simp
    then show ?thesis by blast
  next
    case False
    then have "erase_line s = s\<lparr>cmd_len := 0, sent := sent s\<rparr>"
      by (subst erase_line.simps) simp
    then show ?thesis by blast
  qed
qed

lemma line_inv_Replace:
  assumes "length (cmd_buf s) = kMaxCmdLen" "- 1 \<le> history_nav s"
    "history_nav s < int (history_count s)"
  shows "line_inv (ReplaceLineWith (Some t) s)"
proof -
  obtain x where e: "erase_line s = s\<lparr>cmd_len := 0, sent := x\<rparr>"
    using erase_line_frame by blast
  define len where "len = (if length (c_str t) \<ge> kMaxCmdLen then kMaxCmdLen - 1 else length (c_str t))"
  have le: "len \<le> kMaxCmdLen - 1" "len \<le> length t"
    using length_takeWhile_le [of "\<lambda>c. c \<noteq> NUL" t]
    by (auto simp: len_def kMaxCmdLen_def c_str_def)
  let ?s2 = "s\<lparr>cmd_len := 0, sent := x\<rparr>
              \<lparr>cmd_buf := (take len t @ drop len (cmd_buf s))[len := NUL], cmd_len := len\<rparr>"
  have r: "ReplaceLineWith (Some t) s = Send (Some (cmd_buf ?s2)) (cmd_len ?s2) ?s2"
    by (simp add: ReplaceLineWith_def e Let_def len_def)
  have "line_inv ?s2"
    using assms le by (simp add: line_inv_def kMaxCmdLen_def nth_list_update)
  then show ?thesis
    by (simp only: r line_inv_Send)
qed


lemma GetHistory_Some:
  "0 \<le> i \<Longrightarrow> i < int (history_count s) \<Longrightarrow> \<exists>row. GetHistory i s = Some row"
  by (simp add: GetHistory_def)

lemma line_inv_HandleArrow:
  assumes "line_inv s"
  shows "line_inv (HandleArrow c s)"
proof -
  from assms have len: "length (cmd_buf s) = kMaxCmdLen"
    and nav: "- 1 \<le> history_nav s" "history_nav s < int (history_count s)"
    by (simp_all add: line_inv_def)
  let ?s1 = "s\<lparr>arrow := kNone\<rparr>"
  have s1: "line_inv ?s1"
    using assms by (simp add: line_inv_def)
  have upI: "line_inv (ReplaceLineWith (GetHistory (history_nav s + 1) (?s1\<lparr>history_nav := history_nav s + 1\<rparr>))
              (?s1\<lparr>history_nav := history_nav s + 1\<rparr>))"
    if "history_nav s + 1 < int (history_count s)"
  proof -
    have "\<exists>row. GetHistory (history_nav s + 1) (?s1\<lparr>history_nav := history_nav s + 1\<rparr>) = Some row"
      by (rule GetHistory_Some) (use nav that in simp_all)
    then obtain row where
      "GetHistory (history_nav s + 1) (?s1\<lparr>history_nav := history_nav s + 1\<rparr>) = Some row" ..
    moreover have "line_inv (ReplaceLineWith (Some row) (?s1\<lparr>history_nav := history_nav s + 1\<rparr>))"
      by (rule line_inv_Replace) (use len nav that in simp_all)
    ultimately show ?thesis by simp
  qed
  have downI: "line_inv (ReplaceLineWith (GetHistory (history_nav s - 1) (?s1\<lparr>history_nav := history_nav s - 1\<rparr>))
              (?s1\<lparr>history_nav := history_nav s - 1\<rparr>))"
    if "history_nav s > 0"
  proof -
    have "\<exists>row. GetHistory (history_nav s - 1) (?s1\<lparr>history_nav := history_nav s - 1\<rparr>) = Some row"
      by (rule GetHistory_Some) (use nav that in simp_all)
    then obtain row where
      "GetHistory (history_nav s - 1) (?s1\<lparr>history_nav := history_nav s - 1\<rparr>) = Some row" ..
    moreover have "line_inv (ReplaceLineWith (Some row) (?s1\<lparr>history_nav := history_nav s - 1\<rparr>))"
      by (rule line_inv_Replace) (use len nav that in simp_all)
    ultimately show ?thesis by simp
  qed
  have zeroI: "line_inv (ReplaceLineWith (Some [NUL]) (?s1\<lparr>history_nav := - 1\<rparr>))"
    if "history_nav s = 0"
    by (rule line_inv_Replace) (use len nav that in simp_all)
  have esc: "line_inv (s\<lparr>arrow := a\<rparr>)" for a
    using assms by (simp add: line_inv_def)
  show ?thesis
  proof (cases "arrow s = kEsc")
    case True
    then show ?thesis using esc by (simp add: HandleArrow_def)
  next
    case False
    consider (up) "c = CHR ''A''" "history_nav s + 1 < int (history_count s)"
      | (top) "c = CHR ''A''" "\<not> history_nav s + 1 < int (history_count s)"
      | (down) "c = CHR ''B''" "history_nav s > 0"
      | (zero) "c = CHR ''B''" "history_nav s = 0"
      | (none) "c = CHR ''B''" "history_nav s < 0"
      | (other) "c \<noteq> CHR ''A''" "c \<noteq> CHR ''B''"
      by fastforce
    then show ?thesis
    proof cases
      case up
      then show ?thesis using False upI [OF up(2)] by (simp add: HandleArrow_def Let_def)
    next
      case top
      then show ?thesis using False s1 by (simp add: HandleArrow_def Let_def)
    next
      case down
      then show ?thesis using False downI [OF down(2)] by (simp add: HandleArrow_def Let_def)
    next
      case zero
      then show ?thesis using False zeroI [OF zero(2)] by (simp add: HandleArrow_def Let_def)
    next
      case none
      then show ?thesis using False s1 by (simp add: HandleArrow_def Let_def)
    next
      case other
      then show ?thesis using False s1 by (simp add: HandleArrow_def Let_def)
    qed
  qed
qed

lemma ProcessChar_plain:
  assumes "is_plain c" and "arrow s = kNone"
  shows "ProcessChar c s =
     (if cmd_len s < kMaxCmdLen - 1
      then Send (Some (if auth s = kNeedPass then ''*'' else [c])) 1
             (s\<lparr>cmd_len := cmd_len s + 1,
                cmd_buf := (cmd_buf s)[cmd_len s := c, cmd_len s + 1 := NUL]\<rparr>)
      else s)"
  using assms by (simp add: ProcessChar_def is_plain_def Let_def)

lemma ProcessChar_erase:
  assumes "c = CHR 0x08 \<or> c = CHR 0x7F" and "arrow s = kNone"
  shows "ProcessChar c s =
     (if cmd_len s > 0
      then (if auth s \<noteq> kNeedPass then Send (Some erase_seq) 3 else id)
             (s\<lparr>cmd_len := cmd_len s - 1, cmd_buf := (cmd_buf s)[cmd_len s - 1 := NUL]\<rparr>)
      else s)"
proof -
  have ne: "c \<noteq> CHR 0x1B" "c \<noteq> CHR 0x13" "c \<noteq> CHR 0x11"
    using assms(1) by auto
  show ?thesis
    unfolding ProcessChar_def Let_def
    by (simp only: assms ne if_True if_False not_False_eq_True simp_thms) simp
qed

lemma ProcessChar_enter:
  assumes "arrow s = kNone"
  shows "\<exists>s3. length (cmd_buf s3) = length (cmd_buf s) \<and>
     ProcessChar (CHR 0x0D) s =
       ShowPrompt (s3\<lparr>cmd_len := 0, cmd_buf := c_memset0 (cmd_buf s3) kMaxCmdLen,
                      history_nav := - 1\<rparr>)"
proof -
  let ?s2 = "(Send (Some CRLF) 2 s)\<lparr>cmd_buf := (cmd_buf (Send (Some CRLF) 2 s))
                [cmd_len (Send (Some CRLF) 2 s) := NUL]\<rparr>"
  let ?s3 = "if auth ?s2 \<noteq> kAuthorized then CheckAuth ?s2
             else if cmd_len ?s2 > 0 then ExecuteCommand ?s2 else ?s2"
  have "length (cmd_buf ?s3) = length (cmd_buf s)"
    by simp
  moreover have "ProcessChar (CHR 0x0D) s =
       ShowPrompt (?s3\<lparr>cmd_len := 0, cmd_buf := c_memset0 (cmd_buf ?s3) kMaxCmdLen,
                      history_nav := - 1\<rparr>)"
    using assms by (simp add: ProcessChar_def Let_def)
  ultimately show ?thesis by blast
qed

lemma line_inv_ProcessChar:
  assumes "line_inv s"
  shows "line_inv (ProcessChar c s)"
proof -
  from assms have len: "length (cmd_buf s) = kMaxCmdLen" and cl: "cmd_len s \<le> kMaxCmdLen - 1"
    and nul: "cmd_buf s ! cmd_len s = NUL"
    and nav: "- 1 \<le> history_nav s" "history_nav s < int (history_count s)"
    by (simp_all add: line_inv_def)
  consider (arrow) "arrow s \<noteq> kNone"
    | (esc) "arrow s = kNone" "c = CHR 0x1B"
    | (xoff) "arrow s = kNone" "c = CHR 0x13"
    | (xon) "arrow s = kNone" "c = CHR 0x11"
    | (erase) "arrow s = kNone" "c = CHR 0x08 \<or> c = CHR 0x7F"
    | (enter) "arrow s = kNone" "c = CHR 0x0D"
    | (lf) "arrow s = kNone" "c = CHR 0x0A"
    | (plain) "arrow s = kNone" "is_plain c"
    unfolding is_plain_def by blast
  then show ?thesis
  proof cases
    case arrow
    then have "ProcessChar c s = HandleArrow c s"
      by (simp add: ProcessChar_def)
    then show ?thesis
      using line_inv_HandleArrow [OF assms] by simp
  next
    case esc
    then have "ProcessChar c s = s\<lparr>arrow := kEsc\<rparr>"
      by (simp add: ProcessChar_def)
    then show ?thesis
      using assms by (simp add: line_inv_def)
  next
    case xoff
    then have "ProcessChar c s = s\<lparr>output_paused := True\<rparr>"
      by (simp add: ProcessChar_def)
    then show ?thesis
      using assms by (simp add: line_inv_def)
  next
    case xon
    then have "ProcessChar c s = s\<lparr>output_paused := False\<rparr>"
      by (simp add: ProcessChar_def)
    then show ?thesis
      using assms by (simp add: line_inv_def)
  next
    case erase
    have "line_inv (s\<lparr>cmd_len := cmd_len s - 1, cmd_buf := (cmd_buf s)[cmd_len s - 1 := NUL]\<rparr>)"
      using len cl nav by (simp add: line_inv_def kMaxCmdLen_def)
    then show ?thesis
      using assms by (simp add: ProcessChar_erase [OF erase(2,1)])
  next
    case enter
    obtain s3 where s3: "length (cmd_buf s3) = length (cmd_buf s)"
      "ProcessChar (CHR 0x0D) s =
         ShowPrompt (s3\<lparr>cmd_len := 0, cmd_buf := c_memset0 (cmd_buf s3) kMaxCmdLen,
                        history_nav := - 1\<rparr>)"
      using ProcessChar_enter [OF enter(1)] by blast
    have "line_inv (s3\<lparr>cmd_len := 0, cmd_buf := c_memset0 (cmd_buf s3) kMaxCmdLen,
                        history_nav := - 1\<rparr>)"
      using s3(1) len by (simp add: line_inv_def c_memset0_def kMaxCmdLen_def nth_append)
    then show ?thesis
      by (simp add: enter(2) s3(2))
  next
    case lf
    then have "ProcessChar c s = s"
      by (simp add: ProcessChar_def)
    then show ?thesis
      using assms by simp
  next
    case plain
    have "line_inv (s\<lparr>cmd_len := cmd_len s + 1,
                cmd_buf := (cmd_buf s)[cmd_len s := c, cmd_len s + 1 := NUL]\<rparr>)"
      if "cmd_len s < kMaxCmdLen - 1"
      using len nav that by (simp add: line_inv_def kMaxCmdLen_def)
    then show ?thesis
      using assms by (simp add: ProcessChar_plain [OF plain(2,1)])
  qed
qed

lemma line_inv_fold: "line_inv s \<Longrightarrow> line_inv (fold ProcessChar cs s)"
  by (induction cs arbitrary: s) (simp_all add: line_inv_ProcessChar)

lemma line_inv_run_byte:
  assumes "line_inv s"
  shows "line_inv (run_byte b s)"
proof -
  have "line_inv (s\<lparr>iac := st\<rparr>)" for st
    using assms by (simp add: line_inv_def)
  then show ?thesis
    by (simp add: run_byte_def Let_def line_inv_ProcessChar split: prod.splits)
qed

lemma line_inv_run_loop: "line_inv s \<Longrightarrow> line_inv (run_loop bs s)"
  by (induction bs arbitrary: s) (simp_all add: line_inv_run_byte)

lemma line_inv_Init:
  assumes "length (cmd_buf s0) = kMaxCmdLen"
  shows "line_inv (Init fd reg cfg s0)"
  using assms by (simp add: line_inv_def Init_def c_memset0_def kMaxCmdLen_def nth_append)

text \<open>A session whose line buffer is full.\<close>

definition full_session :: "(unit, nat) TelnetSession" where
  "full_session = open_session\<lparr>cmd_buf := replicate 255 (CHR ''x'') @ [NUL], cmd_len := 255\<rparr>"

lemma sent_Send:
  "0 \<le> sock_fd s \<Longrightarrow> \<not> output_paused s \<Longrightarrow> 0 < n \<Longrightarrow> sent (Send (Some d) n s) = sent s @ take n d"
  by (simp add: Send_def)

text \<open>
  Claim C8. From Init on, whatever characters ProcessChar is given (and whatever bytes the
  read loop is given), the line buffer holds at most \<open>kMaxCmdLen - 1 = 255\<close> characters and
  has a terminator at its length. Outside an escape sequence, a text character that arrives
  when the buffer holds 255 characters leaves the whole session as it was (nothing stored,
  nothing sent), and one that arrives with room is stored at the end of the line, followed by
  a terminator, and echoed through Send: as \<open>*\<close> at the password prompt, as itself otherwise.
\<close>

theorem line_buffer_bounded:
  "(length (cmd_buf s0) = kMaxCmdLen \<longrightarrow>
      cmd_len (fold ProcessChar cs (Init fd reg cfg s0)) \<le> kMaxCmdLen - 1 \<and>
      length (cmd_buf (fold ProcessChar cs (Init fd reg cfg s0))) = kMaxCmdLen \<and>
      cmd_buf (fold ProcessChar cs (Init fd reg cfg s0)) !
        cmd_len (fold ProcessChar cs (Init fd reg cfg s0)) = NUL \<and>
      cmd_len (run_loop bs (Init fd reg cfg s0)) \<le> kMaxCmdLen - 1 \<and>
      length (cmd_buf (run_loop bs (Init fd reg cfg s0))) = kMaxCmdLen \<and>
      cmd_buf (run_loop bs (Init fd reg cfg s0)) ! cmd_len (run_loop bs (Init fd reg cfg s0)) = NUL) \<and>
   kMaxCmdLen - 1 = 255 \<and>
   (line_inv s \<longrightarrow> line_inv (ProcessChar c s)) \<and>
   (is_plain c \<and> arrow s = kNone \<and> kMaxCmdLen - 1 \<le> cmd_len s \<longrightarrow> ProcessChar c s = s) \<and>
   (is_plain c \<and> arrow s = kNone \<and> cmd_len s < kMaxCmdLen - 1 \<longrightarrow>
      ProcessChar c s =
        Send (Some (if auth s = kNeedPass then ''*'' else [c])) 1
          (s\<lparr>cmd_len := cmd_len s + 1,
             cmd_buf := (cmd_buf s)[cmd_len s := c, cmd_len s + 1 := NUL]\<rparr>) \<and>
      cmd_len (ProcessChar c s) = cmd_len s + 1 \<and>
      (length (cmd_buf s) = kMaxCmdLen \<longrightarrow>
         take (cmd_len s + 1) (cmd_buf (ProcessChar c s)) = take (cmd_len s) (cmd_buf s) @ [c])) \<and>
   (0 \<le> sock_fd s \<and> \<not> output_paused s \<longrightarrow> sent (Send (Some [x]) 1 s) = sent s @ [x])"
proof (intro conjI impI)
  assume a: "length (cmd_buf s0) = kMaxCmdLen"
  have i: "line_inv (Init fd reg cfg s0)"
    using a by (rule line_inv_Init)
  have f: "line_inv (fold ProcessChar cs (Init fd reg cfg s0))"
    using i by (rule line_inv_fold)
  have r: "line_inv (run_loop bs (Init fd reg cfg s0))"
    using i by (rule line_inv_run_loop)
  show "cmd_len (fold ProcessChar cs (Init fd reg cfg s0)) \<le> kMaxCmdLen - 1"
    and "length (cmd_buf (fold ProcessChar cs (Init fd reg cfg s0))) = kMaxCmdLen"
    and "cmd_buf (fold ProcessChar cs (Init fd reg cfg s0)) !
        cmd_len (fold ProcessChar cs (Init fd reg cfg s0)) = NUL"
    using f by (simp_all add: line_inv_def)
  show "cmd_len (run_loop bs (Init fd reg cfg s0)) \<le> kMaxCmdLen - 1"
    and "length (cmd_buf (run_loop bs (Init fd reg cfg s0))) = kMaxCmdLen"
    and "cmd_buf (run_loop bs (Init fd reg cfg s0)) ! cmd_len (run_loop bs (Init fd reg cfg s0)) = NUL"
    using r by (simp_all add: line_inv_def)
next
  show "kMaxCmdLen - 1 = 255"
    by (simp add: kMaxCmdLen_def)
next
  assume "line_inv s"
  then show "line_inv (ProcessChar c s)"
    by (rule line_inv_ProcessChar)
next
  assume "is_plain c \<and> arrow s = kNone \<and> kMaxCmdLen - 1 \<le> cmd_len s"
  then show "ProcessChar c s = s"
    by (simp add: ProcessChar_plain)
next
  assume a: "is_plain c \<and> arrow s = kNone \<and> cmd_len s < kMaxCmdLen - 1"
  then show p: "ProcessChar c s =
        Send (Some (if auth s = kNeedPass then ''*'' else [c])) 1
          (s\<lparr>cmd_len := cmd_len s + 1,
             cmd_buf := (cmd_buf s)[cmd_len s := c, cmd_len s + 1 := NUL]\<rparr>)"
    by (simp add: ProcessChar_plain)
  obtain y where y: "ProcessChar c s =
      s\<lparr>cmd_len := cmd_len s + 1,
        cmd_buf := (cmd_buf s)[cmd_len s := c, cmd_len s + 1 := NUL]\<rparr>\<lparr>sent := y\<rparr>"
    unfolding p using Send_frame by blast
  show "cmd_len (ProcessChar c s) = cmd_len s + 1"
    by (simp add: y)
  show "take (cmd_len s + 1) (cmd_buf (ProcessChar c s)) = take (cmd_len s) (cmd_buf s) @ [c]"
    if "length (cmd_buf s) = kMaxCmdLen"
    using a that by (simp add: y kMaxCmdLen_def take_Suc_conv_app_nth)
next
  assume "0 \<le> sock_fd s \<and> \<not> output_paused s"
  then show "sent (Send (Some [x]) 1 s) = sent s @ [x]"
    by (simp add: sent_Send)
qed

theorem line_buffer_bounded_witness:
  "cmd_len (fold ProcessChar ''hello'' open_session) \<le> 255 \<and>
   cmd_buf (fold ProcessChar ''hello'' open_session) !
     cmd_len (fold ProcessChar ''hello'' open_session) = NUL \<and>
   cmd_len full_session = 255 \<and>
   ProcessChar (CHR ''a'') full_session = full_session \<and>
   cmd_len (ProcessChar (CHR ''a'') open_session) = 1 \<and>
   sent (ProcessChar (CHR ''a'') open_session) = sent open_session @ ''a'' \<and>
   sent (ProcessChar (CHR ''t'') typed_pass) = sent typed_pass @ ''*''"
proof -
  note defs = open_session_def full_session_def typed_pass_def demo_session_def demo_config_def
    Init_def new_session_def
  let ?cfg = "\<lparr>username = None, password = None, prompt = Some ''telsh> '', banner = None\<rparr>"
  have l0: "length (cmd_buf (new_session test_registry (0 :: nat) :: (unit, nat) TelnetSession)) = kMaxCmdLen"
    by (simp add: new_session_def)
  note inv = line_buffer_bounded [of "new_session test_registry 0" "''hello''" 3 test_registry ?cfg
      "[]" full_session "CHR ''a''" "CHR ''a''", THEN conjunct1, THEN mp, OF l0]
  have a: "cmd_len (fold ProcessChar ''hello'' open_session) \<le> 255"
    "cmd_buf (fold ProcessChar ''hello'' open_session) !
       cmd_len (fold ProcessChar ''hello'' open_session) = NUL"
    using inv [THEN conjunct1] inv [THEN conjunct2, THEN conjunct2, THEN conjunct1]
    unfolding open_session_def kMaxCmdLen_def by simp_all
  have f: "is_plain (CHR ''a'') \<and> arrow full_session = kNone \<and> kMaxCmdLen - 1 \<le> cmd_len full_session"
    and f': "cmd_len full_session = 255"
    by (simp_all add: defs is_plain_def kMaxCmdLen_def)
  note b = line_buffer_bounded [of "new_session test_registry 0" "[]" 3 test_registry ?cfg
      "[]" full_session "CHR ''a''" "CHR ''a''", THEN conjunct2, THEN conjunct2, THEN conjunct2,
      THEN conjunct1, THEN mp, OF f]
  have o: "is_plain (CHR ''a'') \<and> arrow open_session = kNone \<and> cmd_len open_session < kMaxCmdLen - 1"
    and o': "0 \<le> sock_fd open_session \<and> \<not> output_paused open_session"
      "auth open_session = kAuthorized" "cmd_len open_session = 0"
    by (simp_all add: defs is_plain_def kMaxCmdLen_def)
  note io = line_buffer_bounded [of "new_session test_registry 0" "[]" 3 test_registry ?cfg
      "[]" open_session "CHR ''a''" "CHR ''a''", THEN conjunct2, THEN conjunct2, THEN conjunct2,
      THEN conjunct2, THEN conjunct1, THEN mp, OF o]
  have c: "cmd_len (ProcessChar (CHR ''a'') open_session) = 1"
    using io [THEN conjunct2, THEN conjunct1] o'(3) by simp
  have d: "sent (ProcessChar (CHR ''a'') open_session) = sent open_session @ ''a''"
    using o' by (simp add: io [THEN conjunct1] Send_def)
  have t: "is_plain (CHR ''t'') \<and> arrow typed_pass = kNone \<and> cmd_len typed_pass < kMaxCmdLen - 1"
    and t': "0 \<le> sock_fd typed_pass \<and> \<not> output_paused typed_pass" "auth typed_pass = kNeedPass"
    by (simp_all add: defs is_plain_def kMaxCmdLen_def)
  note it = line_buffer_bounded [of "new_session test_registry 0" "[]" 3 test_registry ?cfg
      "[]" typed_pass "CHR ''t''" "CHR ''*''", THEN conjunct2, THEN conjunct2, THEN conjunct2,
      THEN conjunct2, THEN conjunct1, THEN mp, OF t]
  have e: "sent (ProcessChar (CHR ''t'') typed_pass) = sent typed_pass @ ''*''"
    using t' by (simp add: it [THEN conjunct1] Send_def)
  from a f' b c d e show ?thesis by blast
qed

subsection \<open>The history ring\<close>

text \<open>The invariant of the ring: \<open>kHistorySize\<close> rows of \<open>kMaxCmdLen\<close> bytes, the write
  cursor within the ring, the count at most \<open>kHistorySize\<close>.\<close>

definition hist_inv :: "('c, 'w) TelnetSession \<Rightarrow> bool" where
  "hist_inv s \<longleftrightarrow>
     length (history s) = kHistorySize \<and> list_all (\<lambda>row. length row = kMaxCmdLen) (history s) \<and>
     history_write s < kHistorySize \<and> history_count s \<le> kHistorySize"

text \<open>The stored lines, newest first: the rows that GetHistory returns for the indices
  \<open>0\<close>, \<open>1\<close>, ... below the count, read as C strings.\<close>

definition stored :: "('c, 'w) TelnetSession \<Rightarrow> string list" where
  "stored s =
     map (\<lambda>i. c_str (history s ! ((history_write s + kHistorySize - 1 - i) mod kHistorySize)))
       [0..<history_count s]"

text \<open>
  The history as the specification words it, a list of lines with the newest first: an
  empty line and a line equal to the newest entry change nothing; any other line is put in
  front, and only the \<open>kHistorySize\<close> newest entries are kept.
\<close>

definition push_spec :: "string list \<Rightarrow> string \<Rightarrow> string list" where
  "push_spec xs l =
     (if l = [] \<or> (xs \<noteq> [] \<and> hd xs = l) then xs else take kHistorySize (l # xs))"

definition hist_spec :: "string list \<Rightarrow> string list" where
  "hist_spec ls = foldl push_spec [] ls"

lemma strncpy_terminated:
  assumes "length dst = Suc n"
  shows "c_str ((c_strncpy dst m n)[n := NUL]) = take n (c_str m)"
    and "length ((c_strncpy dst m n)[n := NUL]) = Suc n"
proof -
  let ?x = "take n (c_str m)"
  have len: "length (?x @ replicate (n - length (c_str m)) NUL) = n"
    by simp
  have d: "drop n dst = [dst ! n]"
    using assms Cons_nth_drop_Suc [of n dst] by simp
  have "(c_strncpy dst m n)[n := NUL] =
        ((?x @ replicate (n - length (c_str m)) NUL) @ [dst ! n])[n := NUL]"
    by (simp add: c_strncpy_def d)
  also have "\<dots> = (?x @ replicate (n - length (c_str m)) NUL) @ [NUL]"
    using len by (simp only: list_update_append) simp
  finally have eq: "(c_strncpy dst m n)[n := NUL] =
      ?x @ replicate (n - length (c_str m)) NUL @ [NUL]"
    by simp
  have "NUL \<notin> set ?x"
    using c_str_no_NUL [of m] by (auto dest: in_set_takeD)
  then have "c_str (?x @ replicate (n - length (c_str m)) NUL @ [NUL]) = ?x"
    by (rule c_str_padded)
  then show "c_str ((c_strncpy dst m n)[n := NUL]) = take n (c_str m)"
    by (simp only: eq)
  show "length ((c_strncpy dst m n)[n := NUL]) = Suc n"
    using eq len by simp
qed

lemma peek_0_NUL: "peek m 0 = NUL \<longleftrightarrow> c_str m = []"
  by (cases m) (auto simp: peek_def c_str_def)

lemma ring_index:
  assumes "w < 16" and "j < 15"
  shows "((Suc w) mod 16 + 15 - Suc j) mod 16 = (w + 15 - j) mod (16 :: nat)"
    and "(w + 15 - j) mod 16 \<noteq> w"
proof -
  show "((Suc w) mod 16 + 15 - Suc j) mod 16 = (w + 15 - j) mod (16 :: nat)"
  proof (cases "w = 15")
    case True
    have "(30 - j) = 16 + (14 - j)" using assms(2) by simp
    then have "(30 - j) mod 16 = (14 - j) mod 16"
      by (simp only: mod_add_self1)
    then show ?thesis using True by simp
  next
    case False
    then have "Suc w mod 16 = Suc w" using assms(1) by simp
    moreover have "Suc w + 15 - Suc j = w + 15 - j" by simp
    ultimately show ?thesis by (simp only:)
  qed
  show "(w + 15 - j) mod 16 \<noteq> w"
  proof (cases "j \<le> w")
    case True
    then have "w + 15 - j = 16 + (w - Suc j)" "w - Suc j < 16" if "j < w"
      using that assms by simp_all
    then have "(w + 15 - j) mod 16 = w - Suc j" if "j < w"
      using that by (simp only: mod_add_self1) simp
    moreover have "(w + 15 - j) mod 16 = 15" if "j = w"
      using that by simp
    ultimately show ?thesis
      using True assms by (cases "j = w") auto
  next
    case False
    then have "w + 15 - j < 16" "w + 15 - j > w" using assms by simp_all
    then show ?thesis by simp
  qed
qed

lemma length_stored [simp]: "length (stored s) = history_count s"
  by (simp add: stored_def)

lemma stored_nth:
  "i < history_count s \<Longrightarrow>
   stored s ! i = c_str (history s ! ((history_write s + kHistorySize - 1 - i) mod kHistorySize))"
  by (simp add: stored_def)

lemma GetHistory_stored:
  assumes "hist_inv s"
  shows "map_option c_str (GetHistory i s) =
           (if 0 \<le> i \<and> nat i < history_count s then Some (stored s ! nat i) else None)"
proof (cases "0 \<le> i \<and> i < int (history_count s)")
  case False
  then show ?thesis by (auto simp: GetHistory_def)
next
  case True
  then have "i = int (nat i)" "nat i < history_count s"
    by (simp_all add: nat_less_iff)
  then obtain j where j: "i = int j" "j < history_count s"
    by blast
  from assms j have b: "j < 16" "history_write s < 16"
    by (simp_all add: hist_inv_def kHistorySize_def)
  have "(int (history_write s) + 16 - 1 - int j) mod 2 ^ 32 mod 16 =
        int ((history_write s + 16 - 1 - j) mod 16)"
    using b by (simp add: of_nat_diff zmod_int)
  then show ?thesis
    using j by (simp add: GetHistory_def stored_nth kHistorySize_def)
qed


lemma Push_null: "PushHistory None s = s"
  by (simp add: PushHistory_def)

lemma Push_empty: "c_str m = [] \<Longrightarrow> PushHistory (Some m) s = s"
  by (simp add: PushHistory_def peek_0_NUL)

lemma Push_dup:
  "0 < history_count s \<Longrightarrow> stored s ! 0 = c_str m \<Longrightarrow> PushHistory (Some m) s = s"
  by (simp add: PushHistory_def stored_nth)

text \<open>The row that PushHistory writes: \<^verbatim>\<open>strncpy\<close> of \<open>kMaxCmdLen - 1\<close> bytes and a
  terminator in the last byte.\<close>

definition pushed_row :: "('c, 'w) TelnetSession \<Rightarrow> char list \<Rightarrow> char list" where
  "pushed_row s m =
     (c_strncpy (history s ! history_write s) m (kMaxCmdLen - 1))[kMaxCmdLen - 1 := NUL]"

lemma Push_new_state:
  assumes "c_str m \<noteq> []" and "history_count s = 0 \<or> stored s ! 0 \<noteq> c_str m"
  shows "PushHistory (Some m) s =
     s\<lparr>history := (history s)[history_write s := pushed_row s m],
       history_write := (history_write s + 1) mod kHistorySize,
       history_count := (if history_count s < kHistorySize then history_count s + 1
                         else history_count s)\<rparr>"
  using assms by (auto simp add: PushHistory_def peek_0_NUL stored_nth pushed_row_def)

lemma pushed_row_text:
  assumes "hist_inv s"
  shows "c_str (pushed_row s m) = take (kMaxCmdLen - 1) (c_str m)"
    and "length (pushed_row s m) = kMaxCmdLen"
proof -
  have "history s ! history_write s \<in> set (history s)"
    using assms by (simp add: hist_inv_def)
  then have "length (history s ! history_write s) = Suc (kMaxCmdLen - 1)"
    using assms by (simp add: hist_inv_def list_all_iff kMaxCmdLen_def)
  then show "c_str (pushed_row s m) = take (kMaxCmdLen - 1) (c_str m)"
    and "length (pushed_row s m) = kMaxCmdLen"
    unfolding pushed_row_def using strncpy_terminated [of "history s ! history_write s" "kMaxCmdLen - 1" m]
    by (simp_all add: kMaxCmdLen_def)
qed

lemma Push_new:
  assumes inv: "hist_inv s" and ne: "c_str m \<noteq> []"
    and new: "history_count s = 0 \<or> stored s ! 0 \<noteq> c_str m"
  shows "stored (PushHistory (Some m) s) =
           take kHistorySize (take (kMaxCmdLen - 1) (c_str m) # stored s)"
    and "hist_inv (PushHistory (Some m) s)"
proof -
  let ?w = "history_write s" and ?k = "history_count s"
  let ?s' = "PushHistory (Some m) s"
  note st = Push_new_state [OF ne new]
  from inv have b: "?w < 16" "?k \<le> 16" "length (history s) = 16"
    by (simp_all add: hist_inv_def kHistorySize_def)
  have k': "history_count ?s' = min 16 (Suc ?k)"
    using b by (simp add: st kHistorySize_def)
  have w': "history_write ?s' = Suc ?w mod 16"
    by (simp add: st kHistorySize_def)
  have h': "history ?s' = (history s)[?w := pushed_row s m]"
    by (simp add: st)
  show "hist_inv ?s'"
    using inv pushed_row_text(2) [OF inv, of m]
    by (auto simp add: hist_inv_def k' w' h' kHistorySize_def list_all_iff dest: set_update_subset_insert [THEN subsetD])
  show "stored ?s' = take kHistorySize (take (kMaxCmdLen - 1) (c_str m) # stored s)"
  proof (rule nth_equalityI)
    show "length (stored ?s') =
          length (take kHistorySize (take (kMaxCmdLen - 1) (c_str m) # stored s))"
      by (simp add: k' kHistorySize_def)
  next
    fix i assume "i < length (stored ?s')"
    then have i: "i < min 16 (Suc ?k)" by (simp add: k')
    show "stored ?s' ! i = take kHistorySize (take (kMaxCmdLen - 1) (c_str m) # stored s) ! i"
    proof (cases i)
      case 0
      have "(Suc ?w mod 16 + 16 - 1 - 0) mod 16 = ?w"
        using b(1) by (cases "?w = 15") simp_all
      then have "stored ?s' ! 0 = c_str (pushed_row s m)"
        using b by (simp add: stored_nth k' w' h' kHistorySize_def)
      then show ?thesis
        using 0 by (simp add: pushed_row_text(1) [OF inv] kHistorySize_def)
    next
      case (Suc j)
      with i have j: "j < 15" "j < ?k" by simp_all
      note r = ring_index [OF b(1) j(1)]
      have "stored ?s' ! Suc j = c_str (history ?s' ! ((Suc ?w mod 16 + 15 - Suc j) mod 16))"
        using i Suc by (simp add: stored_nth k' w' kHistorySize_def)
      also have "\<dots> = c_str (history s ! ((?w + 15 - j) mod 16))"
        using r by (simp add: h')
      also have "\<dots> = stored s ! j"
        using j by (simp add: stored_nth kHistorySize_def add.commute)
      finally show ?thesis
        using Suc i by (simp add: kHistorySize_def)
    qed
  qed
qed


lemma Push_step:
  assumes "hist_inv s" and "length (c_str m) \<le> kMaxCmdLen - 1"
  shows "stored (PushHistory (Some m) s) = push_spec (stored s) (c_str m)"
    and "hist_inv (PushHistory (Some m) s)"
proof -
  have n: "stored s \<noteq> [] \<longleftrightarrow> 0 < history_count s"
    using length_stored [of s] by (metis length_greater_0_conv)
  consider (empty) "c_str m = []"
    | (dup) "c_str m \<noteq> []" "0 < history_count s" "stored s ! 0 = c_str m"
    | (new) "c_str m \<noteq> []" "history_count s = 0 \<or> stored s ! 0 \<noteq> c_str m"
    by blast
  then have "stored (PushHistory (Some m) s) = push_spec (stored s) (c_str m) \<and>
      hist_inv (PushHistory (Some m) s)"
  proof cases
    case empty
    then show ?thesis using assms(1) by (simp add: Push_empty push_spec_def)
  next
    case dup
    then show ?thesis
      using assms(1) n by (simp add: Push_dup push_spec_def hd_conv_nth)
  next
    case new
    have "push_spec (stored s) (c_str m) = take kHistorySize (c_str m # stored s)"
      using new n by (auto simp add: push_spec_def hd_conv_nth)
    then show ?thesis
      using Push_new [OF assms(1) new] assms(2) by simp
  qed
  then show "stored (PushHistory (Some m) s) = push_spec (stored s) (c_str m)"
    and "hist_inv (PushHistory (Some m) s)"
    by simp_all
qed

lemma Push_fold:
  assumes "hist_inv s" and "list_all (\<lambda>m. length (c_str m) \<le> kMaxCmdLen - 1) ms"
  shows "stored (fold (\<lambda>m. PushHistory (Some m)) ms s) = foldl push_spec (stored s) (map c_str ms)"
    and "hist_inv (fold (\<lambda>m. PushHistory (Some m)) ms s)"
proof -
  have "stored (fold (\<lambda>m. PushHistory (Some m)) ms s) = foldl push_spec (stored s) (map c_str ms) \<and>
      hist_inv (fold (\<lambda>m. PushHistory (Some m)) ms s)"
    using assms
  proof (induction ms arbitrary: s)
    case Nil
    then show ?case by simp
  next
    case (Cons m ms)
    then have m: "length (c_str m) \<le> kMaxCmdLen - 1"
      and ms: "list_all (\<lambda>m. length (c_str m) \<le> kMaxCmdLen - 1) ms"
      by simp_all
    note step = Push_step [OF Cons.prems(1) m]
    show ?case
      using Cons.IH [OF step(2) ms] by (simp add: step(1))
  qed
  then show "stored (fold (\<lambda>m. PushHistory (Some m)) ms s) = foldl push_spec (stored s) (map c_str ms)"
    and "hist_inv (fold (\<lambda>m. PushHistory (Some m)) ms s)"
    by simp_all
qed

lemma hist_inv_Init: "hist_inv (Init fd reg cfg s0)"
  by (simp add: hist_inv_def Init_def kHistorySize_def list_all_iff)

lemma stored_Init: "stored (Init fd reg cfg s0) = []"
  by (simp add: stored_def Init_def)

text \<open>
  Claim C6. Pushing a null pointer or an empty line leaves the session as it was, and so
  does pushing a line equal to entry 0, the most recent one. Any other line (of at most
  \<open>kMaxCmdLen - 1\<close> characters, as the line buffer holds) is copied into the row at the write
  cursor, the cursor advances around the ring of \<open>kHistorySize = 16\<close> rows, the count grows
  by one up to 16, the line becomes entry 0 and every former entry \<open>i\<close> becomes entry
  \<open>i + 1\<close> (the one that would become entry 16 is lost). After any sequence of pushes from
  Init, GetHistory gives, index by index, the list of the specification: the surviving lines,
  newest first, and a null pointer beyond them.
\<close>

theorem history_ring:
  "PushHistory None s = s \<and>
   (c_str m = [] \<longrightarrow> PushHistory (Some m) s = s) \<and>
   (hist_inv s \<and> map_option c_str (GetHistory 0 s) = Some (c_str m) \<longrightarrow>
      PushHistory (Some m) s = s) \<and>
   (hist_inv s \<and> c_str m \<noteq> [] \<and> length (c_str m) \<le> kMaxCmdLen - 1 \<and>
    map_option c_str (GetHistory 0 s) \<noteq> Some (c_str m) \<longrightarrow>
      c_str (history (PushHistory (Some m) s) ! history_write s) = c_str m \<and>
      history_write (PushHistory (Some m) s) = (history_write s + 1) mod kHistorySize \<and>
      history_count (PushHistory (Some m) s) = min kHistorySize (history_count s + 1) \<and>
      map_option c_str (GetHistory 0 (PushHistory (Some m) s)) = Some (c_str m) \<and>
      (0 \<le> i \<and> i + 1 < int kHistorySize \<longrightarrow>
         map_option c_str (GetHistory (i + 1) (PushHistory (Some m) s)) =
           map_option c_str (GetHistory i s))) \<and>
   (list_all (\<lambda>m. length (c_str m) \<le> kMaxCmdLen - 1) ms \<longrightarrow>
      history_count (fold (\<lambda>m. PushHistory (Some m)) ms (Init fd reg cfg s0)) =
        length (hist_spec (map c_str ms)) \<and>
      map_option c_str (GetHistory i (fold (\<lambda>m. PushHistory (Some m)) ms (Init fd reg cfg s0))) =
        (if 0 \<le> i \<and> nat i < length (hist_spec (map c_str ms))
         then Some (hist_spec (map c_str ms) ! nat i) else None)) \<and>
   kHistorySize = 16"
proof (intro conjI impI)
  show "PushHistory None s = s"
    by (rule Push_null)
  show "kHistorySize = 16"
    by (simp add: kHistorySize_def)
next
  assume "c_str m = []"
  then show "PushHistory (Some m) s = s"
    by (rule Push_empty)
next
  assume a: "hist_inv s \<and> map_option c_str (GetHistory 0 s) = Some (c_str m)"
  then have "0 < history_count s \<and> stored s ! 0 = c_str m"
    using GetHistory_stored [of s 0] by (simp split: if_splits)
  then show "PushHistory (Some m) s = s"
    by (simp add: Push_dup)
next
  assume a: "hist_inv s \<and> c_str m \<noteq> [] \<and> length (c_str m) \<le> kMaxCmdLen - 1 \<and>
    map_option c_str (GetHistory 0 s) \<noteq> Some (c_str m)"
  then have inv: "hist_inv s" and ne: "c_str m \<noteq> []" and le: "length (c_str m) \<le> kMaxCmdLen - 1"
    by simp_all
  have new: "history_count s = 0 \<or> stored s ! 0 \<noteq> c_str m"
    using a GetHistory_stored [of s 0] by (auto split: if_splits)
  let ?s' = "PushHistory (Some m) s"
  note st = Push_new_state [OF ne new]
  note pn = Push_new [OF inv ne new]
  have sto: "stored ?s' = take kHistorySize (c_str m # stored s)"
    using pn(1) le by simp
  from inv have b: "history_write s < length (history s)" "history_count s \<le> kHistorySize"
    by (simp_all add: hist_inv_def)
  show "c_str (history ?s' ! history_write s) = c_str m"
    using b le by (simp add: st pushed_row_text(1) [OF inv])
  show "history_write ?s' = (history_write s + 1) mod kHistorySize"
    by (simp add: st)
  show k': "history_count ?s' = min kHistorySize (history_count s + 1)"
    using b by (simp add: st)
  show "map_option c_str (GetHistory 0 ?s') = Some (c_str m)"
    using GetHistory_stored [OF pn(2), of 0] by (simp add: sto k' kHistorySize_def)
  show "map_option c_str (GetHistory (i + 1) ?s') = map_option c_str (GetHistory i s)"
    if "0 \<le> i \<and> i + 1 < int kHistorySize"
  proof -
    from that have "nat (i + 1) = Suc (nat i)" "Suc (nat i) < kHistorySize"
      by (auto simp add: nat_add_distrib kHistorySize_def)
    then show ?thesis
      using that GetHistory_stored [OF pn(2), of "i + 1"] GetHistory_stored [OF inv, of i] b
      by (auto simp add: sto k')
  qed
next
  assume a: "list_all (\<lambda>m. length (c_str m) \<le> kMaxCmdLen - 1) ms"
  let ?s = "fold (\<lambda>m. PushHistory (Some m)) ms (Init fd reg cfg s0)"
  note pf = Push_fold [OF hist_inv_Init a, of fd reg cfg s0]
  have sto: "stored ?s = hist_spec (map c_str ms)"
    by (simp add: pf(1) stored_Init hist_spec_def)
  show "history_count ?s = length (hist_spec (map c_str ms))"
    using length_stored [of ?s] by (simp only: sto)
  then show "map_option c_str (GetHistory i ?s) =
        (if 0 \<le> i \<and> nat i < length (hist_spec (map c_str ms))
         then Some (hist_spec (map c_str ms) ! nat i) else None)"
    using GetHistory_stored [OF pf(2), of i] by (simp only: sto)
qed

theorem history_ring_witness:
  "hist_spec [''a'', ''a'', ''b''] = [''b'', ''a''] \<and>
   history_count (fold (\<lambda>m. PushHistory (Some m)) [''a'' @ [NUL], ''a'' @ [NUL], ''b'' @ [NUL]]
     open_session) = 2 \<and>
   map_option c_str (GetHistory 0 (fold (\<lambda>m. PushHistory (Some m))
     [''a'' @ [NUL], ''a'' @ [NUL], ''b'' @ [NUL]] open_session)) = Some ''b'' \<and>
   map_option c_str (GetHistory 1 (fold (\<lambda>m. PushHistory (Some m))
     [''a'' @ [NUL], ''a'' @ [NUL], ''b'' @ [NUL]] open_session)) = Some ''a'' \<and>
   map_option c_str (GetHistory 2 (fold (\<lambda>m. PushHistory (Some m))
     [''a'' @ [NUL], ''a'' @ [NUL], ''b'' @ [NUL]] open_session)) = None \<and>
   PushHistory (Some [NUL]) open_session = open_session"
proof -
  let ?ms = "[''a'' @ [NUL], ''a'' @ [NUL], ''b'' @ [NUL]]"
  let ?cfg = "\<lparr>username = None, password = None, prompt = Some ''telsh> '', banner = None\<rparr>"
  have cs: "map c_str ?ms = [''a'', ''a'', ''b'']"
    by (simp add: c_str_def NUL_def)
  have le: "list_all (\<lambda>m. length (c_str m) \<le> kMaxCmdLen - 1) ?ms"
    by (simp add: c_str_def NUL_def kMaxCmdLen_def)
  have hs: "hist_spec [''a'', ''a'', ''b''] = [''b'', ''a'']"
    by (simp add: hist_spec_def push_spec_def kHistorySize_def)
  have seq: "history_count (fold (\<lambda>m. PushHistory (Some m)) ?ms open_session) = 2 \<and>
      map_option c_str (GetHistory i (fold (\<lambda>m. PushHistory (Some m)) ?ms open_session)) =
        (if 0 \<le> i \<and> nat i < 2 then Some ([''b'', ''a''] ! nat i) else None)" for i
    using history_ring [of open_session "[NUL]" i ?ms 3 test_registry ?cfg
        "new_session test_registry 0", THEN conjunct2, THEN conjunct2, THEN conjunct2,
        THEN conjunct2, THEN conjunct1, THEN mp, OF le]
    unfolding cs hs open_session_def by simp
  have e: "c_str [NUL] = []"
    by (simp add: c_str_def)
  note emp = history_ring [of open_session "[NUL]" 0 ?ms 3 test_registry ?cfg
      "new_session test_registry 0", THEN conjunct2, THEN conjunct1, THEN mp, OF e]
  from seq [of 0] seq [of 1] seq [of 2] hs emp show ?thesis
    by simp
qed

end
